theory Spec2Isabelle
  imports Complex_Main "HOL-Library.Sublist"
begin

chapter \<open>Embedding of the game engine\<close>

section \<open>Configuration and score tables\<close>

text \<open>
  The embedding follows \<^verbatim>\<open>src/game.js\<close>.  JavaScript numbers that carry scores are
  modelled as rationals (\<^typ>\<open>rat\<close>), coordinates and loop counters as integers.  The
  products of the score table with the literals \<^verbatim>\<open>0.5\<close>, \<^verbatim>\<open>0.8\<close>, \<^verbatim>\<open>0.7\<close> and \<^verbatim>\<open>0.9\<close> that
  occur in the point evaluation are whole numbers that IEEE doubles represent exactly, so the
  point evaluation is modelled exactly; the weighted sums of the candidate ranking and of the
  board evaluation (\<^verbatim>\<open>attack * 1.2 + defense * 1.8\<close> and the like) are modelled in exact
  arithmetic, without the rounding of doubles.
\<close>

definition BOARD_SIZE :: int where "BOARD_SIZE = 15"

definition FIVE :: rat where "FIVE = 1000000"
definition OPEN_FOUR :: rat where "OPEN_FOUR = 100000"
definition LIVE_FOUR :: rat where "LIVE_FOUR = 100000"
definition SIMPLE_FOUR :: rat where "SIMPLE_FOUR = 10000"
definition RUSH_FOUR :: rat where "RUSH_FOUR = 10000"
definition BROKEN_THREE :: rat where "BROKEN_THREE = 1000"
definition OPEN_THREE :: rat where "OPEN_THREE = 800"
definition LIVE_THREE :: rat where "LIVE_THREE = 800"
definition SIMPLE_THREE :: rat where "SIMPLE_THREE = 100"
definition SLEEP_THREE :: rat where "SLEEP_THREE = 100"
definition OPEN_TWO :: rat where "OPEN_TWO = 50"
definition LIVE_TWO :: rat where "LIVE_TWO = 50"
definition SIMPLE_TWO :: rat where "SIMPLE_TWO = 10"
definition SLEEP_TWO :: rat where "SLEEP_TWO = 10"
definition OPEN_ONE :: rat where "OPEN_ONE = 5"
definition LIVE_ONE :: rat where "LIVE_ONE = 5"

lemmas SCORES =
  FIVE_def OPEN_FOUR_def LIVE_FOUR_def SIMPLE_FOUR_def RUSH_FOUR_def BROKEN_THREE_def
  OPEN_THREE_def LIVE_THREE_def SIMPLE_THREE_def SLEEP_THREE_def OPEN_TWO_def LIVE_TWO_def
  SIMPLE_TWO_def SLEEP_TWO_def OPEN_ONE_def LIVE_ONE_def

text \<open>
  \<^verbatim>\<open>THREAT_LEVELS\<close>, in the order of \<^verbatim>\<open>Object.entries\<close>; each key is paired with the score
  \<^verbatim>\<open>SCORES[key]\<close> that the loop in \<^verbatim>\<open>evaluatePointAdvanced\<close> looks up.
\<close>

definition THREAT_LEVELS :: "(rat \<times> nat) list" where
  "THREAT_LEVELS =
     [(FIVE, 7), (OPEN_FOUR, 6), (SIMPLE_FOUR, 5), (BROKEN_THREE, 4),
      (OPEN_THREE, 3), (SIMPLE_THREE, 2), (OPEN_TWO, 1), (SIMPLE_TWO, 0)]"

definition HARD_SEARCH_DEPTH :: nat where "HARD_SEARCH_DEPTH = 4"
definition HARD_CANDIDATE_LIMIT :: nat where "HARD_CANDIDATE_LIMIT = 15"
definition HARD_SEARCH_LIMIT :: nat where "HARD_SEARCH_LIMIT = 12"
definition HARD_WIN_SCORE :: rat where "HARD_WIN_SCORE = FIVE * 10"

definition HELL_SEARCH_DEPTH :: nat where "HELL_SEARCH_DEPTH = 6"
definition HELL_CANDIDATE_LIMIT :: nat where "HELL_CANDIDATE_LIMIT = 18"
definition HELL_SEARCH_LIMIT :: nat where "HELL_SEARCH_LIMIT = 15"
definition HELL_VCF_DEPTH :: nat where "HELL_VCF_DEPTH = 8"
definition HELL_VCT_DEPTH :: nat where "HELL_VCT_DEPTH = 4"
definition HELL_WIN_SCORE :: rat where "HELL_WIN_SCORE = FIVE * 10"

section \<open>Pattern classifier\<close>

text \<open>
  \<^verbatim>\<open>String.prototype.includes\<close>, and \<^verbatim>\<open>RegExp.prototype.test\<close> for the regular expressions
  of the classifier, each of which is an alternation of literal strings: the test holds when
  one of the alternatives occurs in the string.
\<close>

definition str_includes :: "string \<Rightarrow> string \<Rightarrow> bool" where
  "str_includes s sub = sublist sub s"

definition regex_test :: "string list \<Rightarrow> string \<Rightarrow> bool" where
  "regex_test alts s = (\<exists>a \<in> set alts. str_includes s a)"

text \<open>
  \<^verbatim>\<open>classifyPattern(pattern, center)\<close>.  Reading \<^verbatim>\<open>pattern[center]\<close> beyond the end of the
  string gives \<^verbatim>\<open>undefined\<close>, which differs from \<^verbatim>\<open>'_'\<close>, so the function returns 0 there.
\<close>

definition classifyPattern :: "string \<Rightarrow> nat \<Rightarrow> rat" where
  "classifyPattern pattern center =
     (if \<not> (center < length pattern \<and> pattern ! center = CHR ''_'') then 0
      else
        let newPattern = take center pattern @ ''O'' @ drop (center + 1) pattern in
        if str_includes newPattern ''OOOOO'' then FIVE
        else if regex_test [''_OOOO_''] newPattern \<or>
                regex_test [''_OOOOX''] newPattern \<or>
                regex_test [''XOOOO_''] newPattern then OPEN_FOUR
        else if regex_test [''XOOOO_'', ''_OOOOX'', ''OOO_O'', ''OO_OO'', ''O_OOO''] newPattern
          then SIMPLE_FOUR
        else if regex_test [''_OO_O_'', ''_O_OO_''] newPattern then BROKEN_THREE
        else if regex_test [''_OOO_''] newPattern then OPEN_THREE
        else if regex_test [''XOOO_'', ''_OOOX'', ''OO_O'', ''O_OO''] newPattern
          then SIMPLE_THREE
        else if regex_test [''_OO_''] newPattern then OPEN_TWO
        else if regex_test [''XOO_'', ''_OOX'', ''O_O''] newPattern then SIMPLE_TWO
        else if regex_test [''_O_''] newPattern then OPEN_ONE
        else 0)"

section \<open>Board model\<close>

text \<open>
  \<^verbatim>\<open>gameState.board\<close> is an array of 15 columns of 15 cells, read as \<^verbatim>\<open>board[x][y]\<close>; a cell
  holds 0 (empty), 1 (black) or 2 (white).  Every read and write of the source is made at
  coordinates that lie inside the 15 by 15 board (after an explicit test, or because the
  coordinates come from a scan of the board), so the model reads with \<open>!\<close> and writes with
  list update; the theorems assume a board of that shape where they depend on it.
\<close>

type_synonym board = "nat list list"

definition cell :: "board \<Rightarrow> int \<Rightarrow> int \<Rightarrow> nat" where
  "cell b x y = b ! nat x ! nat y"

definition set_cell :: "board \<Rightarrow> int \<Rightarrow> int \<Rightarrow> nat \<Rightarrow> board" where
  "set_cell b x y v = b[nat x := (b ! nat x)[nat y := v]]"

definition in_bounds :: "int \<Rightarrow> int \<Rightarrow> bool" where
  "in_bounds nx ny = (nx \<ge> 0 \<and> nx < BOARD_SIZE \<and> ny \<ge> 0 \<and> ny < BOARD_SIZE)"

definition directions :: "(int \<times> int) list" where
  "directions = [(1, 0), (0, 1), (1, 1), (1, -1)]"

text \<open>The scan \<^verbatim>\<open>for i, for j\<close> over the board, in its order.\<close>

definition all_cells :: "(int \<times> int) list" where
  "all_cells = concat (map (\<lambda>i. map (\<lambda>j. (i, j)) [0..BOARD_SIZE - 1]) [0..BOARD_SIZE - 1])"

definition wf_board :: "board \<Rightarrow> bool" where
  "wf_board b = (length b = 15 \<and> (\<forall>col \<in> set b. length col = 15 \<and> (\<forall>v \<in> set col. v \<le> 2)))"

section \<open>Line patterns and point evaluation\<close>

definition analyzeLinePattern :: "board \<Rightarrow> int \<Rightarrow> int \<Rightarrow> int \<Rightarrow> int \<Rightarrow> nat \<Rightarrow> rat" where
  "analyzeLinePattern b x y dx dy player =
     (let opponent = (if player = 1 then 2 else 1);
          center = 4;
          pattern = map (\<lambda>i.
             let nx = x + dx * i; ny = y + dy * i in
             if nx < 0 \<or> nx \<ge> BOARD_SIZE \<or> ny < 0 \<or> ny \<ge> BOARD_SIZE then CHR ''X''
             else if cell b nx ny = player then CHR ''O''
             else if cell b nx ny = opponent then CHR ''X''
             else CHR ''_'') [-4..4]
      in classifyPattern pattern center)"

text \<open>
  \<^verbatim>\<open>evaluatePointAdvanced\<close>.  The accumulator of the loop over the four directions holds
  \<^verbatim>\<open>totalScore\<close>, \<^verbatim>\<open>maxThreatLevel\<close> and the three counters of \<^verbatim>\<open>threatCount\<close> (open fours,
  simple fours, open threes).  On an occupied cell the source returns the bare number 0
  (\<open>None\<close> here), otherwise the object with \<^verbatim>\<open>score\<close> and \<^verbatim>\<open>threatLevel\<close>.
\<close>

definition raise_level :: "rat \<Rightarrow> nat \<Rightarrow> nat" where
  "raise_level score maxThreatLevel =
     foldl (\<lambda>m (threshold, level). if score \<ge> threshold \<and> level > m then level else m)
       maxThreatLevel THREAT_LEVELS"

definition count_threat :: "nat \<times> nat \<times> nat \<Rightarrow> rat \<Rightarrow> nat \<times> nat \<times> nat" where
  "count_threat tc score =
     (case tc of (openFours, simpleFours, openThrees) \<Rightarrow>
        if score \<ge> OPEN_FOUR then (openFours + 1, simpleFours, openThrees)
        else if score \<ge> SIMPLE_FOUR then (openFours, simpleFours + 1, openThrees)
        else if score \<ge> OPEN_THREE then (openFours, simpleFours, openThrees + 1)
        else (openFours, simpleFours, openThrees))"

definition point_step :: "rat \<times> nat \<times> (nat \<times> nat \<times> nat) \<Rightarrow> rat \<Rightarrow> rat \<times> nat \<times> (nat \<times> nat \<times> nat)" where
  "point_step acc score =
     (case acc of (totalScore, maxThreatLevel, threatCount) \<Rightarrow>
        (totalScore + score, raise_level score maxThreatLevel, count_threat threatCount score))"

definition combo_bonus :: "rat \<Rightarrow> nat \<times> nat \<times> nat \<Rightarrow> rat" where
  "combo_bonus totalScore tc =
     (case tc of (openFours, simpleFours, openThrees) \<Rightarrow>
        let t1 = (if openFours \<ge> 1 then totalScore + FIVE * 0.5 else totalScore);
            t2 = (if simpleFours \<ge> 2 then t1 + OPEN_FOUR * 0.8 else t1);
            t3 = (if simpleFours \<ge> 1 \<and> openThrees \<ge> 1 then t2 + OPEN_FOUR * 0.7 else t2);
            t4 = (if openThrees \<ge> 2 then t3 + SIMPLE_FOUR * 0.9 else t3)
        in t4)"

definition axis_scores :: "board \<Rightarrow> int \<Rightarrow> int \<Rightarrow> nat \<Rightarrow> rat list" where
  \<comment> \<open>the values of \<^verbatim>\<open>score\<close> in the loop over the directions\<close>
  "axis_scores b x y player = map (\<lambda>(dx, dy). analyzeLinePattern b x y dx dy player) directions"

definition evaluatePointAdvanced :: "board \<Rightarrow> int \<Rightarrow> int \<Rightarrow> nat \<Rightarrow> (rat \<times> nat) option" where
  "evaluatePointAdvanced b x y player =
     (if cell b x y \<noteq> 0 then None
      else
        case foldl point_step (0, 0, (0, 0, 0)) (axis_scores b x y player)
        of (totalScore, maxThreatLevel, threatCount) \<Rightarrow>
          Some (combo_bonus totalScore threatCount, maxThreatLevel))"

text \<open>
  \<^verbatim>\<open>evaluatePoint\<close> reads \<^verbatim>\<open>.score\<close> of the result, which is \<^verbatim>\<open>undefined\<close> (\<open>None\<close>) when the
  cell is occupied.  Every caller tests that the cell is empty before it calls.
\<close>

definition evaluatePoint :: "board \<Rightarrow> int \<Rightarrow> int \<Rightarrow> nat \<Rightarrow> rat option" where
  "evaluatePoint b x y player = map_option fst (evaluatePointAdvanced b x y player)"

definition evaluateLine :: "board \<Rightarrow> int \<Rightarrow> int \<Rightarrow> int \<Rightarrow> int \<Rightarrow> nat \<Rightarrow> rat" where
  "evaluateLine b x y dx dy player = analyzeLinePattern b x y dx dy player"

section \<open>Game state\<close>

text \<open>
  \<^verbatim>\<open>gameState\<close>, with the counter \<^verbatim>\<open>aiStats.nodeCount\<close>.  A history entry is
  \<^verbatim>\<open>{x, y, player}\<close>.  The calls into the page (drawing, status line, buttons) have no
  effect on the game state and are left out, except \<^verbatim>\<open>showResult(winner)\<close>, whose argument is
  recorded in \<open>shownResult\<close>.
\<close>

record game_state =
  board :: board
  history :: "(int \<times> int \<times> nat) list"
  currentPlayer :: nat
  gameOver :: bool
  winningLine :: "(int \<times> int) list"
  gameMode :: string
  difficulty :: string
  playerColor :: nat
  isAiThinking :: bool
  nodeCount :: nat
  shownResult :: "nat option"

definition put :: "int \<Rightarrow> int \<Rightarrow> nat \<Rightarrow> game_state \<Rightarrow> game_state" where
  \<comment> \<open>\<^verbatim>\<open>gameState.board[x][y] = v\<close>\<close>
  "put x y v st = st\<lparr>board := set_cell (board st) x y v\<rparr>"

section \<open>Win detection\<close>

text \<open>
  The two inner loops of \<^verbatim>\<open>checkWin\<close> walk \<^verbatim>\<open>i = 1, ..., 4\<close> away from (x, y), forward with
  step (dx, dy) and backward with step (-dx, -dy), and stop at the first cell that is off
  the board or does not hold \<^verbatim>\<open>player\<close>.  \<open>run_cells\<close> is one such loop, with the step
  (sx, sy) and the remaining values of \<^verbatim>\<open>i\<close>; it returns the cells collected.
\<close>

fun run_cells :: "board \<Rightarrow> nat \<Rightarrow> int \<Rightarrow> int \<Rightarrow> int \<Rightarrow> int \<Rightarrow> int list \<Rightarrow> (int \<times> int) list" where
  "run_cells b player x y sx sy [] = []"
| "run_cells b player x y sx sy (i # is) =
     (let nx = x + sx * i; ny = y + sy * i in
      if nx \<ge> 0 \<and> nx < BOARD_SIZE \<and> ny \<ge> 0 \<and> ny < BOARD_SIZE \<and> cell b nx ny = player
      then (nx, ny) # run_cells b player x y sx sy is
      else [])"

text \<open>
  The line of one direction: the forward cells are pushed behind (x, y), the backward cells
  are put in front one by one (\<^verbatim>\<open>unshift\<close>), so they end up in reverse order of discovery.
\<close>

definition win_line :: "board \<Rightarrow> int \<Rightarrow> int \<Rightarrow> int \<Rightarrow> int \<Rightarrow> nat \<Rightarrow> (int \<times> int) list" where
  "win_line b x y dx dy player =
     rev (run_cells b player x y (- dx) (- dy) [1..4]) @ [(x, y)] @
     run_cells b player x y dx dy [1..4]"

fun checkWin_loop :: "int \<Rightarrow> int \<Rightarrow> nat \<Rightarrow> (int \<times> int) list \<Rightarrow> game_state \<Rightarrow> bool \<times> game_state" where
  "checkWin_loop x y player [] st = (False, st)"
| "checkWin_loop x y player ((dx, dy) # ds) st =
     (let line = win_line (board st) x y dx dy player in
      if length line \<ge> 5 then (True, st\<lparr>winningLine := line\<rparr>)
      else checkWin_loop x y player ds st)"

definition checkWin :: "int \<Rightarrow> int \<Rightarrow> nat \<Rightarrow> game_state \<Rightarrow> bool \<times> game_state" where
  "checkWin x y player st = checkWin_loop x y player directions st"

text \<open>\<^verbatim>\<open>checkWinWithoutState\<close> counts instead of collecting, and writes nothing.\<close>

fun run_count :: "board \<Rightarrow> nat \<Rightarrow> int \<Rightarrow> int \<Rightarrow> int \<Rightarrow> int \<Rightarrow> int list \<Rightarrow> nat" where
  "run_count b player x y sx sy [] = 0"
| "run_count b player x y sx sy (i # is) =
     (let nx = x + sx * i; ny = y + sy * i in
      if nx \<ge> 0 \<and> nx < BOARD_SIZE \<and> ny \<ge> 0 \<and> ny < BOARD_SIZE \<and> cell b nx ny = player
      then 1 + run_count b player x y sx sy is
      else 0)"

definition checkWinWithoutState :: "board \<Rightarrow> int \<Rightarrow> int \<Rightarrow> nat \<Rightarrow> bool" where
  "checkWinWithoutState b x y player =
     (\<exists>(dx, dy) \<in> set directions.
        1 + run_count b player x y dx dy [1..4] + run_count b player x y (- dx) (- dy) [1..4] \<ge> 5)"

text \<open>
  The notions of the specification, for comparison with the code: a cell is \<open>owned\<close> by a
  player when it lies on the board and holds that player's stone; \<open>five_in_row\<close> says that
  some axis has five consecutive cells, the \<open>k\<close>-th of which is (x, y), all owned by the
  player; \<open>four_around\<close> says the same of the four cells other than (x, y).
\<close>

definition owned :: "board \<Rightarrow> nat \<Rightarrow> int \<Rightarrow> int \<Rightarrow> bool" where
  "owned b p nx ny = (in_bounds nx ny \<and> cell b nx ny = p)"

definition five_in_row :: "board \<Rightarrow> nat \<Rightarrow> int \<Rightarrow> int \<Rightarrow> bool" where
  "five_in_row b p x y =
     (\<exists>(dx, dy) \<in> set directions. \<exists>k \<in> set [0..4]. \<forall>i \<in> set [0..4].
        owned b p (x + dx * (i - k)) (y + dy * (i - k)))"

definition four_around :: "board \<Rightarrow> nat \<Rightarrow> int \<Rightarrow> int \<Rightarrow> bool" where
  "four_around b p x y =
     (\<exists>(dx, dy) \<in> set directions. \<exists>k \<in> set [0..4]. \<forall>i \<in> set [0..4].
        i \<noteq> k \<longrightarrow> owned b p (x + dx * (i - k)) (y + dy * (i - k)))"

section \<open>Placing a stone\<close>

definition canPlayerMove :: "game_state \<Rightarrow> bool" where
  "canPlayerMove st =
     (if gameOver st then False
      else if isAiThinking st then False
      else if gameMode st = ''pve'' \<and> currentPlayer st \<noteq> playerColor st then False
      else True)"

text \<open>
  \<^verbatim>\<open>aiMove\<close> marks the engine as thinking, resets the node counter and defers the move
  itself with \<^verbatim>\<open>setTimeout\<close>; \<open>aiMove\<close> is the part that runs at once.
\<close>

definition aiMove :: "game_state \<Rightarrow> game_state" where
  "aiMove st = st\<lparr>isAiThinking := True, nodeCount := 0\<rparr>"

text \<open>
  \<^verbatim>\<open>placePiece\<close>.  Its first test reads \<^verbatim>\<open>gameState.board[x][y]\<close> unless the game is over.
  With \<^verbatim>\<open>y\<close> off the board the value read is \<^verbatim>\<open>undefined\<close>, which differs from 0, and the
  call returns \<^verbatim>\<open>false\<close>.  With \<^verbatim>\<open>x\<close> off the board \<^verbatim>\<open>gameState.board[x]\<close> is \<^verbatim>\<open>undefined\<close> and
  the read raises a \<^verbatim>\<open>TypeError\<close> before anything is written: \<open>placePiece_raises\<close> says when
  that happens, and \<open>placePiece\<close> leaves the state as it is there.  The callers pass cells
  of the board only (\<^verbatim>\<open>getPosition\<close> returns no other, nor does \<^verbatim>\<open>getAIMove\<close>).
\<close>

definition placePiece_raises :: "int \<Rightarrow> game_state \<Rightarrow> bool" where
  "placePiece_raises x st = (\<not> gameOver st \<and> (x < 0 \<or> x \<ge> BOARD_SIZE))"

definition placePiece :: "int \<Rightarrow> int \<Rightarrow> bool \<Rightarrow> game_state \<Rightarrow> bool \<times> game_state" where
  "placePiece x y isAI st =
     (if gameOver st then (False, st)
      else if x < 0 \<or> x \<ge> BOARD_SIZE then (False, st)
      else if y < 0 \<or> y \<ge> BOARD_SIZE \<or> cell (board st) x y \<noteq> 0 then (False, st)
      else if \<not> isAI \<and> \<not> canPlayerMove st then (False, st)
      else
        let st1 = put x y (currentPlayer st) st;
            st2 = st1\<lparr>history := history st1 @ [(x, y, currentPlayer st1)]\<rparr>;
            (won, st3) = checkWin x y (currentPlayer st2) st2
        in
          if won then (True, st3\<lparr>gameOver := True, shownResult := Some (currentPlayer st3)\<rparr>)
          else if int (length (history st3)) = BOARD_SIZE * BOARD_SIZE
            then (True, st3\<lparr>gameOver := True, shownResult := Some 0\<rparr>)
          else
            let st4 = st3\<lparr>currentPlayer := (if currentPlayer st3 = 1 then 2 else 1)\<rparr> in
            if gameMode st4 = ''pve'' \<and> currentPlayer st4 \<noteq> playerColor st4 \<and> \<not> gameOver st4
            then (True, aiMove st4)
            else (True, st4))"

section \<open>Neighbourhood and threat scans\<close>

text \<open>
  A scan that returns \<^verbatim>\<open>true\<close> at the first hit is written with a bounded existential
  quantifier over the list scanned, and a scan that returns the first hit with \<open>find\<close>.
\<close>

definition hasNeighbor :: "board \<Rightarrow> int \<Rightarrow> int \<Rightarrow> int \<Rightarrow> bool" where
  "hasNeighbor b x y distance =
     (\<exists>i \<in> set [- distance..distance]. \<exists>j \<in> set [- distance..distance].
        \<not> (i = 0 \<and> j = 0) \<and>
        (let nx = x + i; ny = y + j in
         nx \<ge> 0 \<and> nx < BOARD_SIZE \<and> ny \<ge> 0 \<and> ny < BOARD_SIZE \<and> cell b nx ny \<noteq> 0))"

definition findThreat :: "board \<Rightarrow> nat \<Rightarrow> rat \<Rightarrow> (int \<times> int) option" where
  "findThreat b player minScore =
     find (\<lambda>(i, j). cell b i j = 0 \<and> hasNeighbor b i j 2 \<and>
             (case evaluatePoint b i j player of Some score \<Rightarrow> score \<ge> minScore | None \<Rightarrow> False))
       all_cells"

text \<open>
  \<^verbatim>\<open>hasImmediateWin\<close> and \<^verbatim>\<open>findImmediateWin\<close> try every empty cell that has a neighbour:
  they write the stone, run \<^verbatim>\<open>checkWin\<close>, take the stone back and clear the winning line.
\<close>

fun hasImmediateWin_loop :: "nat \<Rightarrow> (int \<times> int) list \<Rightarrow> game_state \<Rightarrow> bool \<times> game_state" where
  "hasImmediateWin_loop player [] st = (False, st)"
| "hasImmediateWin_loop player ((i, j) # cs) st =
     (if cell (board st) i j \<noteq> 0 then hasImmediateWin_loop player cs st
      else if \<not> hasNeighbor (board st) i j 2 then hasImmediateWin_loop player cs st
      else
        let st1 = put i j player st;
            (isWin, st2) = checkWin i j player st1;
            st3 = put i j 0 st2;
            st4 = st3\<lparr>winningLine := []\<rparr>
        in if isWin then (True, st4) else hasImmediateWin_loop player cs st4)"

definition hasImmediateWin :: "nat \<Rightarrow> game_state \<Rightarrow> bool \<times> game_state" where
  "hasImmediateWin player st = hasImmediateWin_loop player all_cells st"

fun findImmediateWin_loop :: "nat \<Rightarrow> (int \<times> int) list \<Rightarrow> game_state \<Rightarrow> (int \<times> int) option \<times> game_state" where
  "findImmediateWin_loop player [] st = (None, st)"
| "findImmediateWin_loop player ((i, j) # cs) st =
     (if cell (board st) i j \<noteq> 0 then findImmediateWin_loop player cs st
      else if \<not> hasNeighbor (board st) i j 2 then findImmediateWin_loop player cs st
      else
        let st1 = put i j player st;
            (isWin, st2) = checkWin i j player st1;
            st3 = put i j 0 st2;
            st4 = st3\<lparr>winningLine := []\<rparr>
        in if isWin then (Some (i, j), st4) else findImmediateWin_loop player cs st4)"

definition findImmediateWin :: "nat \<Rightarrow> game_state \<Rightarrow> (int \<times> int) option \<times> game_state" where
  "findImmediateWin player st = findImmediateWin_loop player all_cells st"

text \<open>The scans for compound threats count the directions of a cell by line score.\<close>

definition line_scores :: "board \<Rightarrow> int \<Rightarrow> int \<Rightarrow> nat \<Rightarrow> rat list" where
  "line_scores b i j player = map (\<lambda>(dx, dy). evaluateLine b i j dx dy player) directions"

definition findDoubleRushFour :: "board \<Rightarrow> nat \<Rightarrow> (int \<times> int) option" where
  "findDoubleRushFour b player =
     find (\<lambda>(i, j). cell b i j = 0 \<and> hasNeighbor b i j 2 \<and>
             (let rushFourCount = length (filter (\<lambda>lineScore. lineScore \<ge> RUSH_FOUR)
                                           (line_scores b i j player))
              in rushFourCount \<ge> 2))
       all_cells"

definition findFourThreeCombo :: "board \<Rightarrow> nat \<Rightarrow> (int \<times> int) option" where
  "findFourThreeCombo b player =
     find (\<lambda>(i, j). cell b i j = 0 \<and> hasNeighbor b i j 2 \<and>
             (let rushFourCount = length (filter (\<lambda>lineScore. lineScore \<ge> RUSH_FOUR)
                                           (line_scores b i j player));
                  liveThreeCount = length (filter (\<lambda>lineScore. \<not> lineScore \<ge> RUSH_FOUR \<and>
                                                       lineScore \<ge> LIVE_THREE)
                                            (line_scores b i j player))
              in rushFourCount \<ge> 1 \<and> liveThreeCount \<ge> 1))
       all_cells"

definition findDoubleThree :: "board \<Rightarrow> nat \<Rightarrow> (int \<times> int) option" where
  "findDoubleThree b player =
     find (\<lambda>(i, j). cell b i j = 0 \<and> hasNeighbor b i j 2 \<and>
             (let liveThreeCount = length (filter (\<lambda>lineScore. lineScore \<ge> LIVE_THREE)
                                            (line_scores b i j player))
              in liveThreeCount \<ge> 2))
       all_cells"

section \<open>Candidates and static evaluation\<close>

text \<open>
  \<^verbatim>\<open>getCandidatesImproved(aiPlayer, limit)\<close> takes the opponent from
  \<^verbatim>\<open>gameState.playerColor\<close>.  \<open>candidate_score\<close> is the score of one cell, for the player
  whose attack is weighted 1.2 and the player whose attack is weighted 1.8 as defence.  An
  entry of the list is the cell with its score (the fields \<^verbatim>\<open>attack\<close> and \<^verbatim>\<open>defense\<close> of the
  source object are not read again).  \<^verbatim>\<open>Array.prototype.sort\<close> is stable; sorting by
  descending score is \<open>sort_key\<close> on the negated score, which is stable as well.
\<close>

definition candidate_score :: "board \<Rightarrow> nat \<Rightarrow> nat \<Rightarrow> int \<Rightarrow> int \<Rightarrow> rat" where
  "candidate_score b aiPlayer opponent i j =
     (let attack = the (evaluatePoint b i j aiPlayer);
          defense = the (evaluatePoint b i j opponent);
          score0 = attack * 1.2 + defense * 1.8;
          centerBonus = (7 - \<bar>i - 7\<bar>) + (7 - \<bar>j - 7\<bar>);
          score1 = score0 + of_int centerBonus * 50;
          score2 = (if attack \<ge> LIVE_FOUR \<or> defense \<ge> LIVE_FOUR then score1 + 1000000 else score1);
          score3 = (if attack \<ge> RUSH_FOUR \<or> defense \<ge> RUSH_FOUR then score2 + 500000 else score2);
          score4 = (if attack \<ge> LIVE_THREE \<or> defense \<ge> LIVE_THREE then score3 + 100000 else score3)
      in score4)"

definition ranked_candidates :: "board \<Rightarrow> nat \<Rightarrow> nat \<Rightarrow> nat \<Rightarrow> ((int \<times> int) \<times> rat) list" where
  "ranked_candidates b aiPlayer opponent limit =
     take limit (sort_key (\<lambda>c. - snd c)
       [((i, j), candidate_score b aiPlayer opponent i j).
          (i, j) \<leftarrow> all_cells, cell b i j = 0 \<and> hasNeighbor b i j 2])"

definition getCandidatesImproved :: "nat \<Rightarrow> nat \<Rightarrow> game_state \<Rightarrow> ((int \<times> int) \<times> rat) list" where
  "getCandidatesImproved aiPlayer limit st =
     ranked_candidates (board st) aiPlayer (playerColor st) limit"

definition getCandidates :: "nat \<Rightarrow> nat \<Rightarrow> game_state \<Rightarrow> ((int \<times> int) \<times> rat) list" where
  "getCandidates aiPlayer limit st = getCandidatesImproved aiPlayer limit st"

text \<open>
  \<^verbatim>\<open>evaluatePosition\<close>: one of its inner loops, over the remaining values of \<^verbatim>\<open>i\<close>, returns
  the stones counted and whether the loop ended at a blocked cell.
\<close>

fun side_scan :: "board \<Rightarrow> nat \<Rightarrow> int \<Rightarrow> int \<Rightarrow> int \<Rightarrow> int \<Rightarrow> int list \<Rightarrow> nat \<times> nat" where
  "side_scan b player x y sx sy [] = (0, 0)"
| "side_scan b player x y sx sy (i # is) =
     (let nx = x + sx * i; ny = y + sy * i in
      if nx < 0 \<or> nx \<ge> BOARD_SIZE \<or> ny < 0 \<or> ny \<ge> BOARD_SIZE \<or> cell b nx ny \<noteq> player
      then (0, if nx < 0 \<or> nx \<ge> BOARD_SIZE \<or> ny < 0 \<or> ny \<ge> BOARD_SIZE \<or> cell b nx ny \<noteq> 0
               then 1 else 0)
      else case side_scan b player x y sx sy is of (count, block) \<Rightarrow> (count + 1, block))"

definition evaluatePosition :: "board \<Rightarrow> int \<Rightarrow> int \<Rightarrow> nat \<Rightarrow> rat" where
  "evaluatePosition b x y player =
     foldl (\<lambda>score (dx, dy).
        case side_scan b player x y dx dy [1..4] of (c1, b1) \<Rightarrow>
        case side_scan b player x y (- dx) (- dy) [1..4] of (c2, b2) \<Rightarrow>
          let count = 1 + c1 + c2; block = b1 + b2 in
          if block < 2 then score + of_nat (count ^ 2) * (2 - of_nat block) else score)
       0 directions"

definition evaluateBoard :: "nat \<Rightarrow> game_state \<Rightarrow> rat" where
  "evaluateBoard aiPlayer st =
     (let b = board st; opponent = playerColor st in
      foldl (\<lambda>score (i, j).
         if cell b i j = aiPlayer then score + evaluatePosition b i j aiPlayer
         else if cell b i j = opponent then score - evaluatePosition b i j opponent
         else if hasNeighbor b i j 2 then
           let attack = the (evaluatePoint b i j aiPlayer);
               defense = the (evaluatePoint b i j opponent)
           in score + (attack * 0.8 - defense)
         else score)
        0 all_cells)"

section \<open>Minimax with alpha-beta pruning\<close>

text \<open>
  The search works with \<^verbatim>\<open>-Infinity\<close> and \<^verbatim>\<open>Infinity\<close> besides finite scores.
\<close>

datatype xnum = MInf | Fin rat | PInf

fun xle :: "xnum \<Rightarrow> xnum \<Rightarrow> bool" where
  "xle MInf _ = True"
| "xle (Fin a) MInf = False"
| "xle (Fin a) (Fin b) = (a \<le> b)"
| "xle (Fin a) PInf = True"
| "xle PInf PInf = True"
| "xle PInf _ = False"

definition xgt :: "xnum \<Rightarrow> xnum \<Rightarrow> bool" where
  "xgt a b = (\<not> xle a b)"

definition xmax :: "xnum \<Rightarrow> xnum \<Rightarrow> xnum" where
  "xmax a b = (if xle a b then b else a)"

definition xmin :: "xnum \<Rightarrow> xnum \<Rightarrow> xnum" where
  "xmin a b = (if xle a b then a else b)"

text \<open>
  The loops of a maximising and of a minimising node.  \<open>rec\<close> stands for the recursive call
  \<^verbatim>\<open>minimax(depth - 1, alpha, beta, ...)\<close>; each round writes the stone, searches, and takes
  the stone back before it looks at the score.
\<close>

fun max_loop :: "(xnum \<Rightarrow> xnum \<Rightarrow> game_state \<Rightarrow> xnum \<times> game_state) \<Rightarrow> nat \<Rightarrow>
    ((int \<times> int) \<times> rat) list \<Rightarrow> xnum \<Rightarrow> xnum \<Rightarrow> xnum \<Rightarrow> game_state \<Rightarrow> xnum \<times> game_state" where
  "max_loop rec stone [] maxScore alpha beta st = (maxScore, st)"
| "max_loop rec stone (((x, y), _) # cs) maxScore alpha beta st =
     (let st1 = put x y stone st;
          (score, st2) = rec alpha beta st1;
          st3 = put x y 0 st2;
          maxScore' = xmax maxScore score;
          alpha' = xmax alpha score
      in if xle beta alpha' then (maxScore', st3)
         else max_loop rec stone cs maxScore' alpha' beta st3)"

fun min_loop :: "(xnum \<Rightarrow> xnum \<Rightarrow> game_state \<Rightarrow> xnum \<times> game_state) \<Rightarrow> nat \<Rightarrow>
    ((int \<times> int) \<times> rat) list \<Rightarrow> xnum \<Rightarrow> xnum \<Rightarrow> xnum \<Rightarrow> game_state \<Rightarrow> xnum \<times> game_state" where
  "min_loop rec stone [] minScore alpha beta st = (minScore, st)"
| "min_loop rec stone (((x, y), _) # cs) minScore alpha beta st =
     (let st1 = put x y stone st;
          (score, st2) = rec alpha beta st1;
          st3 = put x y 0 st2;
          minScore' = xmin minScore score;
          beta' = xmin beta score
      in if xle beta' alpha then (minScore', st3)
         else min_loop rec stone cs minScore' alpha beta' st3)"

text \<open>
  The body of \<^verbatim>\<open>minimax\<close>, with \<open>rec\<close> for the function itself at \<^verbatim>\<open>depth - 1\<close>; the function
  is then defined by recursion on the depth.  At depth 0 the body returns before it reaches
  a recursive call.
\<close>

definition minimax_body :: "nat \<Rightarrow> (xnum \<Rightarrow> xnum \<Rightarrow> bool \<Rightarrow> nat \<Rightarrow> game_state \<Rightarrow> xnum \<times> game_state) \<Rightarrow>
    xnum \<Rightarrow> xnum \<Rightarrow> bool \<Rightarrow> nat \<Rightarrow> game_state \<Rightarrow> xnum \<times> game_state" where
  "minimax_body depth rec alpha beta isMaximizing aiPlayer st =
     (let st0 = st\<lparr>nodeCount := nodeCount st + 1\<rparr>;
          opponent = playerColor st0;
          (aiWins, st1) = hasImmediateWin aiPlayer st0
      in if aiWins then (Fin (HARD_WIN_SCORE + of_nat depth), st1)
      else
        let (opponentWins, st2) = hasImmediateWin opponent st1
        in if opponentWins then (Fin (- HARD_WIN_SCORE - of_nat depth), st2)
        else if depth = 0 then (Fin (evaluateBoard aiPlayer st2), st2)
        else
          let candidates = getCandidates aiPlayer HARD_SEARCH_LIMIT st2
          in if length candidates = 0 then (Fin (evaluateBoard aiPlayer st2), st2)
          else if isMaximizing then
            max_loop (\<lambda>a b. rec a b False aiPlayer) aiPlayer candidates MInf alpha beta st2
          else
            min_loop (\<lambda>a b. rec a b True aiPlayer) (playerColor st2) candidates PInf alpha beta st2)"

primrec minimax :: "nat \<Rightarrow> xnum \<Rightarrow> xnum \<Rightarrow> bool \<Rightarrow> nat \<Rightarrow> game_state \<Rightarrow> xnum \<times> game_state" where
  "minimax 0 = minimax_body 0 (\<lambda>alpha beta isMaximizing aiPlayer st. (Fin 0, st))"
| "minimax (Suc depth) = minimax_body (Suc depth) (minimax depth)"

text \<open>The loop of \<^verbatim>\<open>hardMinimax\<close> over the root candidates.\<close>

fun root_loop :: "(game_state \<Rightarrow> xnum \<times> game_state) \<Rightarrow> nat \<Rightarrow> ((int \<times> int) \<times> rat) list \<Rightarrow>
    (int \<times> int) option \<Rightarrow> xnum \<Rightarrow> game_state \<Rightarrow> (int \<times> int) option \<times> game_state" where
  "root_loop search aiPlayer [] bestMove bestScore st = (bestMove, st)"
| "root_loop search aiPlayer (((x, y), _) # cs) bestMove bestScore st =
     (let st1 = put x y aiPlayer st;
          (score, st2) = search st1;
          st3 = put x y 0 st2
      in if xgt score bestScore then root_loop search aiPlayer cs (Some (x, y)) score st3
         else root_loop search aiPlayer cs bestMove bestScore st3)"

definition hardMinimax :: "nat \<Rightarrow> game_state \<Rightarrow> (int \<times> int) \<times> game_state" where
  "hardMinimax aiPlayer st =
     (let candidates = getCandidatesImproved aiPlayer HARD_CANDIDATE_LIMIT st;
          (bestMove, st1) = root_loop (minimax (HARD_SEARCH_DEPTH - 1) MInf PInf False aiPlayer)
                              aiPlayer candidates None MInf st
      in (if bestMove \<noteq> None then the bestMove else (7, 7), st1))"

section \<open>Move selection: Easy, Medium, Hard\<close>

definition getAIPlayer :: "game_state \<Rightarrow> nat" where
  "getAIPlayer st = (if playerColor st = 1 then 2 else 1)"

text \<open>
  \<^verbatim>\<open>getEasyMove\<close>; \<open>r1\<close> and \<open>r2\<close> are the values of the two calls of \<^verbatim>\<open>Math.random()\<close>
  (numbers from 0 inclusive to 1 exclusive).  A test \<^verbatim>\<open>if (move) return move\<close> on a value
  that is a move object or \<^verbatim>\<open>null\<close> is the test for \<open>Some\<close>.
\<close>

definition getEasyMove :: "nat \<Rightarrow> rat \<Rightarrow> rat \<Rightarrow> game_state \<Rightarrow> (int \<times> int) \<times> game_state" where
  "getEasyMove aiPlayer r1 r2 st =
     (let opponent = playerColor st;
          (winMove, st1) = findImmediateWin aiPlayer st
      in if winMove \<noteq> None then (the winMove, st1) else
        let (blockMove, st2) = findImmediateWin opponent st1;
            b = board st2
        in if blockMove \<noteq> None then (the blockMove, st2) else
        let myLiveFour = findThreat b aiPlayer LIVE_FOUR
        in if myLiveFour \<noteq> None then (the myLiveFour, st2) else
        let oppLiveFour = findThreat b opponent LIVE_FOUR
        in if oppLiveFour \<noteq> None then (the oppLiveFour, st2) else
        let unsorted = [((i, j), the (evaluatePoint b i j aiPlayer) + the (evaluatePoint b i j opponent)).
                          (i, j) \<leftarrow> all_cells, cell b i j = 0 \<and> hasNeighbor b i j 2];
            st3 = st2\<lparr>nodeCount := nodeCount st2 + length unsorted\<rparr>
        in if length unsorted = 0 then ((7, 7), st3)
           else
             let candidates = sort_key (\<lambda>c. - snd c) unsorted in
             if r1 < 0.8 then (fst (candidates ! 0), st3)
             else
               let topN = min 3 (length candidates) in
               (fst (candidates ! nat \<lfloor>r2 * of_nat topN\<rfloor>), st3))"

definition getMediumMove :: "nat \<Rightarrow> game_state \<Rightarrow> (int \<times> int) \<times> game_state" where
  "getMediumMove aiPlayer st =
     (let opponent = playerColor st;
          (winMove, st1) = findImmediateWin aiPlayer st
      in if winMove \<noteq> None then (the winMove, st1) else
        let (blockMove, st2) = findImmediateWin opponent st1;
            b = board st2
        in if blockMove \<noteq> None then (the blockMove, st2) else
        let myLiveFour = findThreat b aiPlayer LIVE_FOUR
        in if myLiveFour \<noteq> None then (the myLiveFour, st2) else
        let oppLiveFour = findThreat b opponent LIVE_FOUR
        in if oppLiveFour \<noteq> None then (the oppLiveFour, st2) else
        let scored = [((i, j), the (evaluatePoint b i j aiPlayer) * 1.2 +
                               the (evaluatePoint b i j opponent) * 1.0).
                        (i, j) \<leftarrow> all_cells, cell b i j = 0 \<and> hasNeighbor b i j 2];
            st3 = st2\<lparr>nodeCount := nodeCount st2 + length scored\<rparr>;
            (bestMove, bestScore) =
               foldl (\<lambda>(bestMove, bestScore) (m, score).
                        if xgt (Fin score) bestScore then (Some m, Fin score)
                        else (bestMove, bestScore))
                 (None, MInf) scored
        in (if bestMove \<noteq> None then the bestMove else (7, 7), st3))"

definition getHardMove :: "nat \<Rightarrow> game_state \<Rightarrow> (int \<times> int) \<times> game_state" where
  "getHardMove aiPlayer st =
     (let opponent = playerColor st;
          (winMove, st1) = findImmediateWin aiPlayer st
      in if winMove \<noteq> None then (the winMove, st1) else
        let (blockMove, st2) = findImmediateWin opponent st1;
            b = board st2
        in if blockMove \<noteq> None then (the blockMove, st2) else
        let myLiveFour = findThreat b aiPlayer LIVE_FOUR
        in if myLiveFour \<noteq> None then (the myLiveFour, st2) else
        let oppLiveFour = findThreat b opponent LIVE_FOUR
        in if oppLiveFour \<noteq> None then (the oppLiveFour, st2) else
        let myRushFour = findThreat b aiPlayer RUSH_FOUR
        in if myRushFour \<noteq> None then (the myRushFour, st2) else
        let myDoubleRushFour = findDoubleRushFour b aiPlayer
        in if myDoubleRushFour \<noteq> None then (the myDoubleRushFour, st2) else
        let myFourThree = findFourThreeCombo b aiPlayer
        in if myFourThree \<noteq> None then (the myFourThree, st2) else
        let myDoubleThree = findDoubleThree b aiPlayer
        in if myDoubleThree \<noteq> None then (the myDoubleThree, st2) else
        let oppDoubleRushFour = findDoubleRushFour b opponent
        in if oppDoubleRushFour \<noteq> None then (the oppDoubleRushFour, st2) else
        let oppFourThree = findFourThreeCombo b opponent
        in if oppFourThree \<noteq> None then (the oppFourThree, st2) else
        let oppDoubleThree = findDoubleThree b opponent
        in if oppDoubleThree \<noteq> None then (the oppDoubleThree, st2) else
        hardMinimax aiPlayer st2)"

section \<open>The top tier: forcing-sequence searches and deep minimax\<close>

text \<open>
  \<^verbatim>\<open>countThreatsDetailed\<close> returns \<^verbatim>\<open>{liveFour, rushFour, liveThree, sleepThree}\<close>, counted
  over the directions of all empty cells that have a neighbour.
\<close>

definition countThreatsDetailed :: "board \<Rightarrow> nat \<Rightarrow> nat \<times> nat \<times> nat \<times> nat" where
  "countThreatsDetailed b player =
     foldl (\<lambda>(liveFour, rushFour, liveThree, sleepThree) lineScore.
        if lineScore \<ge> LIVE_FOUR then (liveFour + 1, rushFour, liveThree, sleepThree)
        else if lineScore \<ge> RUSH_FOUR then (liveFour, rushFour + 1, liveThree, sleepThree)
        else if lineScore \<ge> LIVE_THREE then (liveFour, rushFour, liveThree + 1, sleepThree)
        else if lineScore \<ge> SLEEP_THREE then (liveFour, rushFour, liveThree, sleepThree + 1)
        else (liveFour, rushFour, liveThree, sleepThree))
       (0, 0, 0, 0)
       (concat [line_scores b i j player. (i, j) \<leftarrow> all_cells, cell b i j = 0 \<and> hasNeighbor b i j 2])"

definition evaluateBoardHell :: "nat \<Rightarrow> game_state \<Rightarrow> rat" where
  "evaluateBoardHell aiPlayer st =
     (let b = board st; opponent = playerColor st;
          base = foldl (\<lambda>score (i, j).
             if cell b i j = aiPlayer then
               score + evaluatePosition b i j aiPlayer
                 + (of_int (7 - \<bar>i - 7\<bar>) * 20 + of_int (7 - \<bar>j - 7\<bar>) * 20)
             else if cell b i j = opponent then
               score - evaluatePosition b i j opponent * 1.3
                 - (of_int (7 - \<bar>i - 7\<bar>) * 20 + of_int (7 - \<bar>j - 7\<bar>) * 20)
             else if hasNeighbor b i j 2 then
               let attack = the (evaluatePoint b i j aiPlayer);
                   defense = the (evaluatePoint b i j opponent)
               in score + (attack * 0.6 - defense * 0.8)
             else score)
            0 all_cells
      in case countThreatsDetailed b aiPlayer of (myLiveFour, myRushFour, myLiveThree, mySleepThree) \<Rightarrow>
         case countThreatsDetailed b opponent of (oppLiveFour, oppRushFour, oppLiveThree, oppSleepThree) \<Rightarrow>
           let s1 = base + of_nat myLiveFour * LIVE_FOUR * 0.8 + of_nat myRushFour * RUSH_FOUR * 0.5
                      + of_nat myLiveThree * LIVE_THREE * 0.3 + of_nat mySleepThree * SLEEP_THREE * 0.1;
               s2 = s1 - of_nat oppLiveFour * LIVE_FOUR * 1.0 - of_nat oppRushFour * RUSH_FOUR * 0.7
                      - of_nat oppLiveThree * LIVE_THREE * 0.5 - of_nat oppSleepThree * SLEEP_THREE * 0.2;
               s3 = (if myRushFour \<ge> 2 then s2 + LIVE_FOUR * 0.6 else s2);
               s4 = (if myRushFour \<ge> 1 \<and> myLiveThree \<ge> 1 then s3 + LIVE_FOUR * 0.5 else s3);
               s5 = (if myLiveThree \<ge> 2 then s4 + RUSH_FOUR * 0.8 else s4);
               s6 = (if oppRushFour \<ge> 2 then s5 - LIVE_FOUR * 0.8 else s5);
               s7 = (if oppRushFour \<ge> 1 \<and> oppLiveThree \<ge> 1 then s6 - LIVE_FOUR * 0.7 else s6);
               s8 = (if oppLiveThree \<ge> 2 then s7 - RUSH_FOUR * 1.0 else s7)
           in s8)"

definition minimaxHell_body :: "nat \<Rightarrow> (xnum \<Rightarrow> xnum \<Rightarrow> bool \<Rightarrow> nat \<Rightarrow> game_state \<Rightarrow> xnum \<times> game_state) \<Rightarrow>
    xnum \<Rightarrow> xnum \<Rightarrow> bool \<Rightarrow> nat \<Rightarrow> game_state \<Rightarrow> xnum \<times> game_state" where
  "minimaxHell_body depth rec alpha beta isMaximizing aiPlayer st =
     (let st0 = st\<lparr>nodeCount := nodeCount st + 1\<rparr>;
          opponent = playerColor st0;
          (aiWins, st1) = hasImmediateWin aiPlayer st0
      in if aiWins then (Fin (HELL_WIN_SCORE + of_nat depth), st1)
      else
        let (opponentWins, st2) = hasImmediateWin opponent st1
        in if opponentWins then (Fin (- HELL_WIN_SCORE - of_nat depth), st2)
        else if depth = 0 then (Fin (evaluateBoardHell aiPlayer st2), st2)
        else
          let candidates = getCandidatesImproved aiPlayer HELL_SEARCH_LIMIT st2
          in if length candidates = 0 then (Fin (evaluateBoardHell aiPlayer st2), st2)
          else if isMaximizing then
            max_loop (\<lambda>a b. rec a b False aiPlayer) aiPlayer candidates MInf alpha beta st2
          else
            min_loop (\<lambda>a b. rec a b True aiPlayer) opponent candidates PInf alpha beta st2)"

primrec minimaxHellImproved :: "nat \<Rightarrow> xnum \<Rightarrow> xnum \<Rightarrow> bool \<Rightarrow> nat \<Rightarrow> game_state \<Rightarrow> xnum \<times> game_state" where
  "minimaxHellImproved 0 = minimaxHell_body 0 (\<lambda>alpha beta isMaximizing aiPlayer st. (Fin 0, st))"
| "minimaxHellImproved (Suc depth) = minimaxHell_body (Suc depth) (minimaxHellImproved depth)"

definition hellMinimaxImproved :: "nat \<Rightarrow> game_state \<Rightarrow> (int \<times> int) \<times> game_state" where
  "hellMinimaxImproved aiPlayer st =
     (let candidates = getCandidatesImproved aiPlayer HELL_CANDIDATE_LIMIT st;
          (bestMove, st1) =
             root_loop (minimaxHellImproved (HELL_SEARCH_DEPTH - 1) MInf PInf False aiPlayer)
               aiPlayer candidates None MInf st
      in (if bestMove \<noteq> None then the bestMove else (7, 7), st1))"

definition findAllRushFoursImproved :: "board \<Rightarrow> nat \<Rightarrow> ((int \<times> int) \<times> rat) list" where
  "findAllRushFoursImproved b player =
     take 10 (sort_key (\<lambda>c. - snd c)
       [((i, j), maxScore).
          (i, j) \<leftarrow> all_cells, cell b i j = 0 \<and> hasNeighbor b i j 2,
          maxScore \<leftarrow> [foldl (\<lambda>maxScore lineScore.
                                 if lineScore \<ge> RUSH_FOUR then max maxScore lineScore else maxScore)
                           0 (line_scores b i j player)],
          maxScore \<ge> RUSH_FOUR])"

fun findAllDefensePoints_loop :: "nat \<Rightarrow> (int \<times> int) list \<Rightarrow> game_state \<Rightarrow> (int \<times> int) list \<times> game_state" where
  "findAllDefensePoints_loop attackPlayer [] st = ([], st)"
| "findAllDefensePoints_loop attackPlayer ((i, j) # cs) st =
     (if cell (board st) i j \<noteq> 0 then findAllDefensePoints_loop attackPlayer cs st
      else if \<not> hasNeighbor (board st) i j 2 then findAllDefensePoints_loop attackPlayer cs st
      else
        let st1 = put i j attackPlayer st;
            wouldWin = checkWinWithoutState (board st1) i j attackPlayer;
            st2 = put i j 0 st1;
            (defensePoints, st3) = findAllDefensePoints_loop attackPlayer cs st2
        in (if wouldWin then (i, j) # defensePoints else defensePoints, st3))"

definition findAllDefensePoints :: "nat \<Rightarrow> game_state \<Rightarrow> (int \<times> int) list \<times> game_state" where
  "findAllDefensePoints attackPlayer st = findAllDefensePoints_loop attackPlayer all_cells st"

definition findAllThreatsImproved :: "board \<Rightarrow> nat \<Rightarrow> ((int \<times> int) \<times> rat) list" where
  "findAllThreatsImproved b player =
     sort_key (\<lambda>c. - snd c)
       [((i, j), the (evaluatePoint b i j player)).
          (i, j) \<leftarrow> all_cells, cell b i j = 0 \<and> hasNeighbor b i j 2,
          (case evaluatePoint b i j player of Some score \<Rightarrow> score \<ge> LIVE_THREE | None \<Rightarrow> False)]"

definition findBestOpeningMove :: "nat \<Rightarrow> game_state \<Rightarrow> int \<times> int" where
  "findBestOpeningMove aiPlayer st =
     (let b = board st; center = 7;
          candidates =
            [((center + dx, center + dy),
              the (evaluatePoint b (center + dx) (center + dy) aiPlayer) +
              the (evaluatePoint b (center + dx) (center + dy) (playerColor st))).
               dx \<leftarrow> [-2..2], dy \<leftarrow> [-2..2],
               cell b (center + dx) (center + dy) = 0 \<and> hasNeighbor b (center + dx) (center + dy) 1]
      in if length candidates = 0 then (7, 7)
         else fst (sort_key (\<lambda>c. - snd c) candidates ! 0))"

text \<open>
  \<^verbatim>\<open>searchVCFImproved\<close>.  The inner function \<^verbatim>\<open>vcfSearch(depth, isAttacker)\<close> is defined by
  recursion on the depth from its body, in which \<open>rec\<close> stands for \<^verbatim>\<open>vcfSearch(depth - 1, _)\<close>.
  \<open>vcf_defense_loop\<close> is the loop over the defence points and returns \<^verbatim>\<open>allDefenseFail\<close>;
  \<open>vcf_move_loop\<close> is the loop over the rush-four moves.
\<close>

fun vcf_defense_loop :: "(game_state \<Rightarrow> (int \<times> int) option \<times> game_state) \<Rightarrow> nat \<Rightarrow>
    (int \<times> int) list \<Rightarrow> game_state \<Rightarrow> bool \<times> game_state" where
  "vcf_defense_loop rec opponent [] st = (True, st)"
| "vcf_defense_loop rec opponent ((x, y) # ds) st =
     (let st1 = put x y opponent st;
          (result, st2) = rec st1;
          st3 = put x y 0 st2
      in if result = None then (False, st3)
         else vcf_defense_loop rec opponent ds st3)"

fun vcf_move_loop :: "(game_state \<Rightarrow> (int \<times> int) option \<times> game_state) \<Rightarrow> nat \<Rightarrow> nat \<Rightarrow>
    ((int \<times> int) \<times> rat) list \<Rightarrow> game_state \<Rightarrow> (int \<times> int) option \<times> game_state" where
  "vcf_move_loop rec player opponent [] st = (None, st)"
| "vcf_move_loop rec player opponent (((x, y), _) # ms) st =
     (let st1 = put x y player st in
      if checkWinWithoutState (board st1) x y player then (Some (x, y), put x y 0 st1)
      else
        let (defensePoints, st2) = findAllDefensePoints player st1;
            (allDefenseFail, st3) = vcf_defense_loop rec opponent defensePoints st2;
            st4 = put x y 0 st3
        in if allDefenseFail \<and> length defensePoints > 0 then (Some (x, y), st4)
           else vcf_move_loop rec player opponent ms st4)"

definition vcf_body :: "nat \<Rightarrow> (bool \<Rightarrow> game_state \<Rightarrow> (int \<times> int) option \<times> game_state) \<Rightarrow>
    nat \<Rightarrow> nat \<Rightarrow> bool \<Rightarrow> game_state \<Rightarrow> (int \<times> int) option \<times> game_state" where
  "vcf_body depth rec player opponent isAttacker st =
     (let st0 = st\<lparr>nodeCount := nodeCount st + 1\<rparr> in
      if depth \<le> 0 then (None, st0)
      else
        let (canWin, st1) = hasImmediateWin player st0 in
        if canWin then findImmediateWin player st1
        else if isAttacker then
          vcf_move_loop (rec True) player opponent (findAllRushFoursImproved (board st1) player) st1
        else (None, st1))"

primrec vcfSearch :: "nat \<Rightarrow> nat \<Rightarrow> nat \<Rightarrow> bool \<Rightarrow> game_state \<Rightarrow> (int \<times> int) option \<times> game_state" where
  "vcfSearch 0 player opponent = vcf_body 0 (\<lambda>isAttacker st. (None, st)) player opponent"
| "vcfSearch (Suc depth) player opponent =
     vcf_body (Suc depth) (vcfSearch depth player opponent) player opponent"

definition searchVCFImproved :: "nat \<Rightarrow> nat \<Rightarrow> game_state \<Rightarrow> (int \<times> int) option \<times> game_state" where
  "searchVCFImproved player maxDepth st =
     (let opponent = (if player = 1 then 2 else 1) in vcfSearch maxDepth player opponent True st)"

text \<open>\<^verbatim>\<open>searchVCTImproved\<close> tries the eight strongest threats; it does not use \<^verbatim>\<open>maxDepth\<close>.\<close>

fun vct_loop :: "nat \<Rightarrow> ((int \<times> int) \<times> rat) list \<Rightarrow> game_state \<Rightarrow> (int \<times> int) option \<times> game_state" where
  "vct_loop player [] st = (None, st)"
| "vct_loop player (((x, y), _) # ms) st =
     (let st1 = put x y player st;
          hasWinningThreat =
            (findThreat (board st1) player LIVE_FOUR \<noteq> None \<or>
             findDoubleRushFour (board st1) player \<noteq> None \<or>
             findFourThreeCombo (board st1) player \<noteq> None \<or>
             findDoubleThree (board st1) player \<noteq> None);
          st2 = put x y 0 st1
      in if hasWinningThreat then (Some (x, y), st2) else vct_loop player ms st2)"

definition searchVCTImproved :: "nat \<Rightarrow> nat \<Rightarrow> game_state \<Rightarrow> (int \<times> int) option \<times> game_state" where
  "searchVCTImproved player maxDepth st =
     vct_loop player (take 8 (findAllThreatsImproved (board st) player)) st"

text \<open>\<^verbatim>\<open>OPENING_BOOK\<close>: the first move, and the responses as pairs of condition and move.\<close>

definition OPENING_BOOK_first :: "int \<times> int" where
  "OPENING_BOOK_first = (7, 7)"

definition OPENING_BOOK_responses :: "((int \<times> int) list \<times> (int \<times> int)) list" where
  "OPENING_BOOK_responses =
     [([(7, 7)], (8, 8)),
      ([(6, 7)], (7, 7)),
      ([(8, 7)], (7, 7)),
      ([(7, 6)], (7, 7)),
      ([(7, 8)], (7, 7))]"

text \<open>
  The lookup in \<^verbatim>\<open>getHellMove\<close> for the second move: the first response whose condition
  lists the opponent's first move and whose move is an empty cell.
\<close>

definition book_response :: "game_state \<Rightarrow> (int \<times> int) option" where
  "book_response st =
     (let firstMove = history st ! 0 in
      map_option snd
        (find (\<lambda>(condition, move).
                 (\<exists>(x, y) \<in> set condition. fst firstMove = x \<and> fst (snd firstMove) = y) \<and>
                 cell (board st) (fst move) (snd move) = 0)
           OPENING_BOOK_responses))"

definition getHellMove :: "nat \<Rightarrow> game_state \<Rightarrow> (int \<times> int) \<times> game_state" where
  "getHellMove aiPlayer st =
     (let opponent = playerColor st; moveCount = length (history st) in
      if moveCount = 0 then (OPENING_BOOK_first, st)
      else if moveCount = 1 then
        (if book_response st \<noteq> None then (the (book_response st), st)
         else (findBestOpeningMove aiPlayer st, st))
      else
        let (immediateWin, st1) = findImmediateWin aiPlayer st
        in if immediateWin \<noteq> None then (the immediateWin, st1) else
        let (immediateBlock, st2) = findImmediateWin opponent st1;
            b = board st2
        in if immediateBlock \<noteq> None then (the immediateBlock, st2) else
        let myLiveFour = findThreat b aiPlayer LIVE_FOUR
        in if myLiveFour \<noteq> None then (the myLiveFour, st2) else
        let opponentLiveFour = findThreat b opponent LIVE_FOUR
        in if opponentLiveFour \<noteq> None then (the opponentLiveFour, st2) else
        let myDoubleRushFour = findDoubleRushFour b aiPlayer
        in if myDoubleRushFour \<noteq> None then (the myDoubleRushFour, st2) else
        let myFourThree = findFourThreeCombo b aiPlayer
        in if myFourThree \<noteq> None then (the myFourThree, st2) else
        let myDoubleThree = findDoubleThree b aiPlayer
        in if myDoubleThree \<noteq> None then (the myDoubleThree, st2) else
        let opponentDoubleRushFour = findDoubleRushFour b opponent
        in if opponentDoubleRushFour \<noteq> None then (the opponentDoubleRushFour, st2) else
        let opponentFourThree = findFourThreeCombo b opponent
        in if opponentFourThree \<noteq> None then (the opponentFourThree, st2) else
        let opponentDoubleThree = findDoubleThree b opponent
        in if opponentDoubleThree \<noteq> None then (the opponentDoubleThree, st2) else
        let (vcfMove, st3) = searchVCFImproved aiPlayer HELL_VCF_DEPTH st2
        in if vcfMove \<noteq> None then (the vcfMove, st3) else
        let (vctMove, st4) = searchVCTImproved aiPlayer HELL_VCT_DEPTH st3
        in if vctMove \<noteq> None then (the vctMove, st4) else
        hellMinimaxImproved aiPlayer st4)"

section \<open>The move of the computer\<close>

definition getAIMove :: "rat \<Rightarrow> rat \<Rightarrow> game_state \<Rightarrow> (int \<times> int) \<times> game_state" where
  "getAIMove r1 r2 st =
     (let aiPlayer = getAIPlayer st in
      if difficulty st = ''easy'' then getEasyMove aiPlayer r1 r2 st
      else if difficulty st = ''medium'' then getMediumMove aiPlayer st
      else if difficulty st = ''hard'' then getHardMove aiPlayer st
      else if difficulty st = ''hell'' then getHellMove aiPlayer st
      else getEasyMove aiPlayer r1 r2 st)"

text \<open>The deferred part of \<^verbatim>\<open>aiMove\<close>: the callback given to \<^verbatim>\<open>setTimeout\<close>.\<close>

definition aiMove_callback :: "rat \<Rightarrow> rat \<Rightarrow> game_state \<Rightarrow> game_state" where
  "aiMove_callback r1 r2 st =
     (let (move, st1) = getAIMove r1 r2 st;
          (placed, st2) = placePiece (fst move) (snd move) True st1
      in st2\<lparr>isAiThinking := False\<rparr>)"

section \<open>Notions used in the statements\<close>

text \<open>
  A well-formed state: the board has 15 columns of 15 cells with values 0, 1 and 2, the
  human plays black or white, and the occupied cells are exactly the cells of the moves in
  the history (the history is the log of the stones on the board).
\<close>

definition wf_state :: "game_state \<Rightarrow> bool" where
  "wf_state st =
     (wf_board (board st) \<and> (playerColor st = 1 \<or> playerColor st = 2) \<and>
      (\<forall>(i, j) \<in> set all_cells.
         (cell (board st) i j \<noteq> 0) = ((i, j) \<in> set (map (\<lambda>(x, y, p). (x, y)) (history st)))))"

text \<open>
  \<open>frame st st'\<close>: the state \<open>st'\<close> differs from \<open>st\<close> at most in the winning line and in the
  node counter; in particular the two boards are equal.
\<close>

definition frame :: "game_state \<Rightarrow> game_state \<Rightarrow> bool" where
  "frame st st' = (\<exists>wl nc. st' = st\<lparr>winningLine := wl, nodeCount := nc\<rparr>)"

text \<open>
  A winning cell of a player: an empty cell of the board such that the player's stone
  placed there lies in a five in a row.  A candidate cell: an empty cell with a stone within
  distance 2.
\<close>

definition winning_cell :: "board \<Rightarrow> nat \<Rightarrow> int \<times> int \<Rightarrow> bool" where
  "winning_cell b p c =
     (in_bounds (fst c) (snd c) \<and> cell b (fst c) (snd c) = 0 \<and>
      five_in_row (set_cell b (fst c) (snd c) p) p (fst c) (snd c))"

definition candidate_cell :: "board \<Rightarrow> int \<times> int \<Rightarrow> bool" where
  "candidate_cell b c =
     (in_bounds (fst c) (snd c) \<and> cell b (fst c) (snd c) = 0 \<and> hasNeighbor b (fst c) (snd c) 2)"

text \<open>
  The test that \<^verbatim>\<open>hasImmediateWin\<close>, \<^verbatim>\<open>findImmediateWin\<close> and \<^verbatim>\<open>findAllDefensePoints\<close> apply
  to a cell: it is empty, has a neighbour, and the player's stone written there passes the
  win check.
\<close>

definition immediate_win_at :: "board \<Rightarrow> nat \<Rightarrow> int \<times> int \<Rightarrow> bool" where
  "immediate_win_at b p c =
     (cell b (fst c) (snd c) = 0 \<and> hasNeighbor b (fst c) (snd c) 2 \<and>
      checkWinWithoutState (set_cell b (fst c) (snd c) p) (fst c) (snd c) p)"

text \<open>
  What the interface promises of a move: it lies on the board and refers to an empty cell,
  or it is the centre (7, 7), returned because no candidate cell exists.
\<close>

definition legal_or_fallback :: "board \<Rightarrow> int \<times> int \<Rightarrow> bool" where
  "legal_or_fallback b m =
     (in_bounds (fst m) (snd m) \<and>
      (cell b (fst m) (snd m) = 0 \<or> (m = (7, 7) \<and> (\<forall>c \<in> set all_cells. \<not> candidate_cell b c))))"

text \<open>
  Fours, by what they threaten.  \<open>five_along\<close>: (x, y) lies in five cells in a row of the
  player on the axis \<open>d\<close>.  \<open>five_points\<close>: the empty cells of the axis at which one more
  stone of the player gives such a five.  A stone completes a simple-four on an axis when
  it makes no five there and leaves exactly one such cell: a four in a row with exactly one
  extending end empty, or a four with a gap.  With two or more such cells (a four in a row
  with both extending ends empty) it completes an open four.
\<close>

definition five_along :: "board \<Rightarrow> nat \<Rightarrow> int \<Rightarrow> int \<Rightarrow> int \<times> int \<Rightarrow> bool" where
  "five_along b p x y d =
     (\<exists>k \<in> set [0..4]. \<forall>i \<in> set [0..4].
        owned b p (x + fst d * (i - k)) (y + snd d * (i - k)))"

definition five_points :: "board \<Rightarrow> nat \<Rightarrow> int \<Rightarrow> int \<Rightarrow> int \<times> int \<Rightarrow> (int \<times> int) list" where
  "five_points b p x y d =
     filter (\<lambda>c. in_bounds (fst c) (snd c) \<and> cell b (fst c) (snd c) = 0 \<and>
                 five_along (set_cell b (fst c) (snd c) p) p x y d)
       (map (\<lambda>i. (x + fst d * i, y + snd d * i)) [-4..4])"

definition completes_five :: "board \<Rightarrow> nat \<Rightarrow> int \<Rightarrow> int \<Rightarrow> int \<times> int \<Rightarrow> bool" where
  "completes_five b p x y d = five_along (set_cell b x y p) p x y d"

definition completes_simple_four :: "board \<Rightarrow> nat \<Rightarrow> int \<Rightarrow> int \<Rightarrow> int \<times> int \<Rightarrow> bool" where
  "completes_simple_four b p x y d =
     (\<not> completes_five b p x y d \<and> length (five_points (set_cell b x y p) p x y d) = 1)"

definition completes_open_four :: "board \<Rightarrow> nat \<Rightarrow> int \<Rightarrow> int \<Rightarrow> int \<times> int \<Rightarrow> bool" where
  "completes_open_four b p x y d =
     (\<not> completes_five b p x y d \<and> length (five_points (set_cell b x y p) p x y d) \<ge> 2)"

text \<open>
  The list of candidates as the specification describes it for a node of the search of the
  Hard tier: ranked for the side to move, with that side as the attacker and the other side
  as the defender.  The computer is to move at a maximising node, the human at a minimising
  one.
\<close>

definition side_to_move_candidates :: "bool \<Rightarrow> nat \<Rightarrow> game_state \<Rightarrow> ((int \<times> int) \<times> rat) list" where
  "side_to_move_candidates isMaximizing aiPlayer st =
     (if isMaximizing
      then ranked_candidates (board st) aiPlayer (playerColor st) HARD_SEARCH_LIMIT
      else ranked_candidates (board st) (playerColor st) aiPlayer HARD_SEARCH_LIMIT)"

section \<open>Example positions\<close>

text \<open>The board that \<^verbatim>\<open>init\<close> builds, and boards given by a list of stones.\<close>

definition empty_board :: board where
  "empty_board = replicate 15 (replicate 15 0)"

definition stones_board :: "(int \<times> int \<times> nat) list \<Rightarrow> board" where
  "stones_board ms = foldl (\<lambda>b (x, y, p). set_cell b x y p) empty_board ms"

text \<open>
  Black stones around (7,7) on the row and on the column (each line \<^verbatim>\<open>O_.OO\<close> with the
  gap next to (7,7)), and around (2,2) on the row only.
\<close>

definition double_four_board :: board where
  "double_four_board = stones_board
     [(6, 7, 1), (9, 7, 1), (10, 7, 1), (7, 6, 1), (7, 9, 1), (7, 10, 1),
      (1, 2, 1), (4, 2, 1), (5, 2, 1)]"

text \<open>
  The same black stones around (7,7), and three black stones in a row from (1,12) to
  (3,12) with a white stone before them at (0,12).
\<close>

definition blocked_four_board :: board where
  "blocked_four_board = stones_board
     [(6, 7, 1), (9, 7, 1), (10, 7, 1), (7, 6, 1), (7, 9, 1), (7, 10, 1),
      (0, 12, 2), (1, 12, 1), (2, 12, 1), (3, 12, 1)]"

text \<open>The state that \<^verbatim>\<open>init\<close> sets up for a two-player game, and a state on a given board.\<close>

definition start_state :: game_state where
  "start_state =
     \<lparr>board = empty_board, history = [], currentPlayer = 1, gameOver = False,
      winningLine = [], gameMode = ''pvp'', difficulty = ''easy'', playerColor = 1,
      isAiThinking = False, nodeCount = 0, shownResult = None\<rparr>"

text \<open>Six black stones in a row, from (3,7) to (8,7).\<close>

definition six_row_state :: game_state where
  "six_row_state =
     start_state\<lparr>board := stones_board
        [(3, 7, 1), (4, 7, 1), (5, 7, 1), (6, 7, 1), (7, 7, 1), (8, 7, 1)]\<rparr>"

text \<open>
  A game against the top tier in which the human, playing black, has opened at (3,3) and
  the computer is to answer.
\<close>

definition opening_state :: game_state where
  "opening_state =
     start_state\<lparr>board := stones_board [(3, 3, 1)], history := [(3, 3, 1)], currentPlayer := 2,
       gameMode := ''pve'', difficulty := ''hell'', playerColor := 1\<rparr>"

text \<open>
  A game against the top tier after nine moves: white, the computer, has four stones in a
  row from (5,5) to (8,5) and is to move.
\<close>

definition four_row_moves :: "(int \<times> int \<times> nat) list" where
  "four_row_moves =
     [(5, 6, 1), (5, 5, 2), (6, 6, 1), (6, 5, 2), (7, 6, 1), (7, 5, 2), (9, 9, 1), (8, 5, 2),
      (1, 1, 1)]"

definition four_row_state :: game_state where
  "four_row_state =
     start_state\<lparr>board := stones_board four_row_moves, history := four_row_moves,
       currentPlayer := 2, gameMode := ''pve'', difficulty := ''hell'', playerColor := 1\<rparr>"

text \<open>
  A node of the search of the Hard tier: the human (black) has played (7,7), the search has
  written a white stone at (6,7), and black is to move.
\<close>

definition min_node_state :: game_state where
  "min_node_state =
     start_state\<lparr>board := stones_board [(7, 7, 1), (6, 7, 2)], history := [(7, 7, 1)],
       currentPlayer := 2, gameMode := ''pve'', difficulty := ''hard'', playerColor := 1\<rparr>"

text \<open>
  A two-player game with all cells filled except (14,14), in a pattern without five in a
  row (pairs of equal stones along a row, alternating stones along a column); black is to
  move.
\<close>

definition draw_colour :: "int \<Rightarrow> int \<Rightarrow> nat" where
  "draw_colour i j = 1 + nat ((i div 2 + j) mod 2)"

definition draw_moves :: "(int \<times> int \<times> nat) list" where
  "draw_moves = [(i, j, draw_colour i j). (i, j) \<leftarrow> all_cells, (i, j) \<noteq> (14, 14)]"

definition draw_state :: game_state where
  "draw_state = start_state\<lparr>board := stones_board draw_moves, history := draw_moves\<rparr>"

chapter \<open>Properties\<close>

section \<open>Properties of the classifier\<close>

lemma str_includes_rev: "str_includes (rev s) (rev sub) = str_includes s sub"
  by (simp add: str_includes_def)

lemma regex_test_rev: "regex_test (map rev alts) (rev s) = regex_test alts s"
  by (simp add: regex_test_def str_includes_rev)

lemma regex_test_perm: "set alts = set alts' \<Longrightarrow> regex_test alts s = regex_test alts' s"
  by (simp add: regex_test_def)

lemma rev_placed:
  assumes "c < length p"
  shows "take (length p - 1 - c) (rev p) @ ''O'' @ drop (length p - 1 - c + 1) (rev p)
         = rev (take c p @ ''O'' @ drop (c + 1) p)"
proof -
  have a: "take (length p - 1 - c) (rev p) = rev (drop (c + 1) p)"
    using assms by (simp add: rev_drop)
  have e: "length p - 1 - c + 1 = length p - c"
    using assms by simp
  have b: "drop (length p - 1 - c + 1) (rev p) = rev (take c p)"
    unfolding e by (simp add: rev_take)
  show ?thesis unfolding a b by simp
qed

lemma classifyPattern_rev_general:
  assumes "c < length p"
  shows "classifyPattern (rev p) (length p - 1 - c) = classifyPattern p c"
proof -
  let ?n = "take c p @ ''O'' @ drop (c + 1) p"
  have idx: "rev p ! (length p - 1 - c) = p ! c"
    using assms by (simp add: rev_nth)
  have lt: "length p - 1 - c < length p" using assms by simp
  have five: "str_includes (rev ?n) ''OOOOO'' = str_includes ?n ''OOOOO''"
    using str_includes_rev [of ?n "''OOOOO''"] by simp
  have t1: "regex_test [''_OOOO_''] (rev ?n) = regex_test [''_OOOO_''] ?n"
    using regex_test_rev [of "[''_OOOO_'']" ?n] by simp
  have t2: "regex_test [''_OOOOX''] (rev ?n) = regex_test [''XOOOO_''] ?n"
    using regex_test_rev [of "[''XOOOO_'']" ?n] by simp
  have t3: "regex_test [''XOOOO_''] (rev ?n) = regex_test [''_OOOOX''] ?n"
    using regex_test_rev [of "[''_OOOOX'']" ?n] by simp
  have t4: "regex_test [''XOOOO_'', ''_OOOOX'', ''OOO_O'', ''OO_OO'', ''O_OOO''] (rev ?n)
          = regex_test [''XOOOO_'', ''_OOOOX'', ''OOO_O'', ''OO_OO'', ''O_OOO''] ?n"
    using regex_test_rev [of "[''_OOOOX'', ''XOOOO_'', ''O_OOO'', ''OO_OO'', ''OOO_O'']" ?n]
      regex_test_perm [of "[''_OOOOX'', ''XOOOO_'', ''O_OOO'', ''OO_OO'', ''OOO_O'']"
        "[''XOOOO_'', ''_OOOOX'', ''OOO_O'', ''OO_OO'', ''O_OOO'']" ?n]
    by (simp add: insert_commute)
  have t5: "regex_test [''_OO_O_'', ''_O_OO_''] (rev ?n) = regex_test [''_OO_O_'', ''_O_OO_''] ?n"
    using regex_test_rev [of "[''_O_OO_'', ''_OO_O_'']" ?n]
      regex_test_perm [of "[''_O_OO_'', ''_OO_O_'']" "[''_OO_O_'', ''_O_OO_'']" ?n]
    by (simp add: insert_commute)
  have t6: "regex_test [''_OOO_''] (rev ?n) = regex_test [''_OOO_''] ?n"
    using regex_test_rev [of "[''_OOO_'']" ?n] by simp
  have t7: "regex_test [''XOOO_'', ''_OOOX'', ''OO_O'', ''O_OO''] (rev ?n)
          = regex_test [''XOOO_'', ''_OOOX'', ''OO_O'', ''O_OO''] ?n"
    using regex_test_rev [of "[''_OOOX'', ''XOOO_'', ''O_OO'', ''OO_O'']" ?n]
      regex_test_perm [of "[''_OOOX'', ''XOOO_'', ''O_OO'', ''OO_O'']"
        "[''XOOO_'', ''_OOOX'', ''OO_O'', ''O_OO'']" ?n]
    by (simp add: insert_commute)
  have t8: "regex_test [''_OO_''] (rev ?n) = regex_test [''_OO_''] ?n"
    using regex_test_rev [of "[''_OO_'']" ?n] by simp
  have t9: "regex_test [''XOO_'', ''_OOX'', ''O_O''] (rev ?n)
          = regex_test [''XOO_'', ''_OOX'', ''O_O''] ?n"
    using regex_test_rev [of "[''_OOX'', ''XOO_'', ''O_O'']" ?n]
      regex_test_perm [of "[''_OOX'', ''XOO_'', ''O_O'']" "[''XOO_'', ''_OOX'', ''O_O'']" ?n]
    by (simp add: insert_commute)
  have t10: "regex_test [''_O_''] (rev ?n) = regex_test [''_O_''] ?n"
    using regex_test_rev [of "[''_O_'']" ?n] by simp
  have disj: "(regex_test [''_OOOO_''] (rev ?n) \<or> regex_test [''_OOOOX''] (rev ?n) \<or>
               regex_test [''XOOOO_''] (rev ?n))
            = (regex_test [''_OOOO_''] ?n \<or> regex_test [''_OOOOX''] ?n \<or>
               regex_test [''XOOOO_''] ?n)"
    using t1 t2 t3 by blast
  show ?thesis
    unfolding classifyPattern_def Let_def rev_placed [OF assms] idx
    using assms lt
    by (simp only: length_rev five disj t4 t5 t6 t7 t8 t9 t10)
qed

text \<open>
  C8.  For every 9-cell window, the classifier returns the same score (and the score
  identifies the classification) for the window and for the reversed window, the centre
  being cell 4 of both.
\<close>

theorem classifyPattern_reverse_invariant:
  "length w = 9 \<Longrightarrow> classifyPattern (rev w) 4 = classifyPattern w 4"
  using classifyPattern_rev_general [of 4 w] by simp

theorem classifyPattern_reverse_invariant_witness:
  "length ''XOOO__O_X'' = 9 \<and>
   classifyPattern (rev ''XOOO__O_X'') 4 = classifyPattern ''XOOO__O_X'' 4"
  using classifyPattern_reverse_invariant [of "''XOOO__O_X''"] by simp


text \<open>
  C4.  The window \<^verbatim>\<open>XOOO_____\<close> has an empty centre; a stone placed there gives
  \<^verbatim>\<open>XOOOO____\<close>: four contiguous own stones, the left extending end blocked, the right one
  empty, and no five.  The open-four test of the classifier also accepts \<^verbatim>\<open>XOOOO_\<close> and
  \<^verbatim>\<open>_OOOOX\<close>, so the window receives the open-four score and not the simple-four score.
\<close>

theorem classifyPattern_blocked_four_is_scored_open:
  "classifyPattern ''XOOO_____'' 4 = OPEN_FOUR \<and>
   classifyPattern ''XOOO_____'' 4 \<noteq> SIMPLE_FOUR \<and>
   \<not> str_includes ''XOOOO____'' ''OOOOO'' \<and>
   SIMPLE_FOUR < OPEN_FOUR"
  by (simp add: classifyPattern_def regex_test_def str_includes_def SCORES
      sublist_Cons_right)

text \<open>
  More generally, the alternatives \<^verbatim>\<open>XOOOO_\<close> and \<^verbatim>\<open>_OOOOX\<close> of the simple-four test are
  never reached: a window that contains one of them has been given the open-four score (or
  the five score) before.
\<close>

lemma classifyPattern_blocked_four_general:
  assumes "c < length w" and "w ! c = CHR ''_''"
    and "regex_test [''XOOOO_'', ''_OOOOX''] (take c w @ ''O'' @ drop (c + 1) w)"
    and "\<not> str_includes (take c w @ ''O'' @ drop (c + 1) w) ''OOOOO''"
  shows "classifyPattern w c = OPEN_FOUR"
proof -
  let ?n = "take c w @ ''O'' @ drop (c + 1) w"
  have "regex_test [''_OOOOX''] ?n \<or> regex_test [''XOOOO_''] ?n"
    using assms(3) unfolding regex_test_def by auto
  then have "regex_test [''_OOOO_''] ?n \<or> regex_test [''_OOOOX''] ?n \<or>
             regex_test [''XOOOO_''] ?n"
    by blast
  then show ?thesis
    using assms(1,2,4) unfolding classifyPattern_def Let_def
    by (simp only: simp_thms if_True if_False)
qed

section \<open>Point evaluation\<close>

lemma classifyPattern_range:
  "classifyPattern w c \<in> {0, OPEN_ONE, SIMPLE_TWO, OPEN_TWO, SIMPLE_THREE, OPEN_THREE,
      BROKEN_THREE, SIMPLE_FOUR, OPEN_FOUR, FIVE}"
  unfolding classifyPattern_def Let_def by simp

lemma analyzeLinePattern_range:
  "analyzeLinePattern b x y dx dy p \<in> {0, OPEN_ONE, SIMPLE_TWO, OPEN_TWO, SIMPLE_THREE,
      OPEN_THREE, BROKEN_THREE, SIMPLE_FOUR, OPEN_FOUR, FIVE}"
  unfolding analyzeLinePattern_def Let_def by (rule classifyPattern_range)

lemma analyzeLinePattern_nonneg: "0 \<le> analyzeLinePattern b x y dx dy p"
  using analyzeLinePattern_range [of b x y dx dy p] by (auto simp: SCORES)

lemma analyzeLinePattern_below_four:
  "analyzeLinePattern b x y dx dy p < SIMPLE_FOUR \<Longrightarrow> analyzeLinePattern b x y dx dy p \<le> BROKEN_THREE"
  using analyzeLinePattern_range [of b x y dx dy p] by (auto simp: SCORES)

lemma point_step_eq:
  "point_step (t, m, (a, b, c)) s =
     (t + s, raise_level s m,
      (a + (if OPEN_FOUR \<le> s then 1 else 0),
       b + (if SIMPLE_FOUR \<le> s \<and> \<not> OPEN_FOUR \<le> s then 1 else 0),
       c + (if OPEN_THREE \<le> s \<and> \<not> SIMPLE_FOUR \<le> s then 1 else 0)))"
  by (simp add: point_step_def count_threat_def SCORES)

lemma foldl_point_step:
  "foldl point_step (t, m, (a, b, c)) ss =
     (t + sum_list ss, foldl (\<lambda>m s. raise_level s m) m ss,
      (a + length (filter (\<lambda>s. OPEN_FOUR \<le> s) ss),
       b + length (filter (\<lambda>s. SIMPLE_FOUR \<le> s \<and> \<not> OPEN_FOUR \<le> s) ss),
       c + length (filter (\<lambda>s. OPEN_THREE \<le> s \<and> \<not> SIMPLE_FOUR \<le> s) ss)))"
proof (induction ss arbitrary: t m a b c)
  case Nil
  then show ?case by simp
next
  case (Cons s ss)
  show ?case
    by (simp add: point_step_eq Cons.IH)
qed

lemma evaluatePoint_empty:
  assumes "cell b x y = 0"
  shows "evaluatePoint b x y p =
    Some (combo_bonus (sum_list (map (\<lambda>(dx, dy). analyzeLinePattern b x y dx dy p) directions))
      (length (filter (\<lambda>s. OPEN_FOUR \<le> s) (map (\<lambda>(dx, dy). analyzeLinePattern b x y dx dy p) directions)),
       length (filter (\<lambda>s. SIMPLE_FOUR \<le> s \<and> \<not> OPEN_FOUR \<le> s) (map (\<lambda>(dx, dy). analyzeLinePattern b x y dx dy p) directions)),
       length (filter (\<lambda>s. OPEN_THREE \<le> s \<and> \<not> SIMPLE_FOUR \<le> s) (map (\<lambda>(dx, dy). analyzeLinePattern b x y dx dy p) directions))))"
  using assms by (simp add: evaluatePoint_def evaluatePointAdvanced_def axis_scores_def foldl_point_step)

lemma combo_bonus_lower:
  "2 \<le> nsf \<Longrightarrow> t + 80000 \<le> combo_bonus t (nof, nsf, n3)"
  by (simp add: combo_bonus_def Let_def SCORES)

lemma combo_bonus_upper:
  "combo_bonus t (0, Suc 0, n3) \<le> t + 79000"
  by (simp add: combo_bonus_def Let_def SCORES)


lemma line_scores_unfold:
  "map (\<lambda>(dx, dy). analyzeLinePattern b x y dx dy p) directions =
     [analyzeLinePattern b x y 1 0 p, analyzeLinePattern b x y 0 1 p,
      analyzeLinePattern b x y 1 1 p, analyzeLinePattern b x y 1 (-1) p]"
  by (simp add: directions_def)

lemma two_axes_cases:
  assumes "\<exists>d1 \<in> set directions. \<exists>d2 \<in> set directions. d1 \<noteq> d2 \<and>
               f (fst d1) (snd d1) = (v::rat) \<and> f (fst d2) (snd d2) = v"
  shows "(f 1 0 = v \<and> f 0 1 = v) \<or> (f 1 0 = v \<and> f 1 1 = v) \<or> (f 1 0 = v \<and> f 1 (-1) = v) \<or>
         (f 0 1 = v \<and> f 1 1 = v) \<or> (f 0 1 = v \<and> f 1 (-1) = v) \<or> (f 1 1 = v \<and> f 1 (-1) = v)"
  using assms unfolding directions_def by auto

lemma one_axis_cases:
  assumes "\<exists>d \<in> set directions. f (fst d) (snd d) = (v::rat) \<and>
               (\<forall>d' \<in> set directions. d' \<noteq> d \<longrightarrow> f (fst d') (snd d') < v)"
  shows "(f 1 0 = v \<and> f 0 1 < v \<and> f 1 1 < v \<and> f 1 (-1) < v) \<or>
         (f 1 0 < v \<and> f 0 1 = v \<and> f 1 1 < v \<and> f 1 (-1) < v) \<or>
         (f 1 0 < v \<and> f 0 1 < v \<and> f 1 1 = v \<and> f 1 (-1) < v) \<or>
         (f 1 0 < v \<and> f 0 1 < v \<and> f 1 1 < v \<and> f 1 (-1) = v)"
  using assms unfolding directions_def by auto


lemma double_four_total:
  fixes a1 a2 a3 a4 :: rat
  assumes "0 \<le> a1" "0 \<le> a2" "0 \<le> a3" "0 \<le> a4"
    and "(a1 = SIMPLE_FOUR \<and> a2 = SIMPLE_FOUR) \<or> (a1 = SIMPLE_FOUR \<and> a3 = SIMPLE_FOUR) \<or>
         (a1 = SIMPLE_FOUR \<and> a4 = SIMPLE_FOUR) \<or> (a2 = SIMPLE_FOUR \<and> a3 = SIMPLE_FOUR) \<or>
         (a2 = SIMPLE_FOUR \<and> a4 = SIMPLE_FOUR) \<or> (a3 = SIMPLE_FOUR \<and> a4 = SIMPLE_FOUR)"
  shows "20000 \<le> sum_list [a1, a2, a3, a4] \<and>
         2 \<le> length (filter (\<lambda>s. SIMPLE_FOUR \<le> s \<and> \<not> OPEN_FOUR \<le> s) [a1, a2, a3, a4])"
  using assms unfolding SCORES by (elim disjE conjE) simp_all

lemma single_four_total:
  fixes a1 a2 a3 a4 :: rat
  assumes "(a1 = SIMPLE_FOUR \<and> a2 \<le> BROKEN_THREE \<and> a3 \<le> BROKEN_THREE \<and> a4 \<le> BROKEN_THREE) \<or>
         (a1 \<le> BROKEN_THREE \<and> a2 = SIMPLE_FOUR \<and> a3 \<le> BROKEN_THREE \<and> a4 \<le> BROKEN_THREE) \<or>
         (a1 \<le> BROKEN_THREE \<and> a2 \<le> BROKEN_THREE \<and> a3 = SIMPLE_FOUR \<and> a4 \<le> BROKEN_THREE) \<or>
         (a1 \<le> BROKEN_THREE \<and> a2 \<le> BROKEN_THREE \<and> a3 \<le> BROKEN_THREE \<and> a4 = SIMPLE_FOUR)"
  shows "sum_list [a1, a2, a3, a4] \<le> 13000 \<and>
         length (filter (\<lambda>s. OPEN_FOUR \<le> s) [a1, a2, a3, a4]) = 0 \<and>
         length (filter (\<lambda>s. SIMPLE_FOUR \<le> s \<and> \<not> OPEN_FOUR \<le> s) [a1, a2, a3, a4]) = Suc 0"
  using assms unfolding SCORES by (elim disjE conjE) simp_all


text \<open>
  Between cells whose lines the classifier itself scores as simple-four the order is as
  intended: an empty cell with two such axes scores strictly more than an empty cell with
  exactly one and every other axis less.  The first total is at least 100000 (two line
  scores and the double-four bonus of 80000), the second at most 92000.  By
  \<open>classifyPattern_blocked_four_general\<close> only fours with a gap are scored so.
\<close>

lemma classified_double_four_outscores_single:
  assumes ea: "cell b xa ya = 0" and eb: "cell b xb yb = 0"
    and two: "\<exists>d1 \<in> set directions. \<exists>d2 \<in> set directions. d1 \<noteq> d2 \<and>
               analyzeLinePattern b xa ya (fst d1) (snd d1) p = SIMPLE_FOUR \<and>
               analyzeLinePattern b xa ya (fst d2) (snd d2) p = SIMPLE_FOUR"
    and one: "\<exists>d \<in> set directions.
               analyzeLinePattern b xb yb (fst d) (snd d) p = SIMPLE_FOUR \<and>
               (\<forall>d' \<in> set directions. d' \<noteq> d \<longrightarrow>
                  analyzeLinePattern b xb yb (fst d') (snd d') p < SIMPLE_FOUR)"
  shows "\<exists>sa sb. evaluatePoint b xa ya p = Some sa \<and> evaluatePoint b xb yb p = Some sb \<and> sb < sa"
proof -
  let ?fa = "\<lambda>dx dy. analyzeLinePattern b xa ya dx dy p"
  let ?fb = "\<lambda>dx dy. analyzeLinePattern b xb yb dx dy p"
  let ?A = "[?fa 1 0, ?fa 0 1, ?fa 1 1, ?fa 1 (-1)]"
  let ?B = "[?fb 1 0, ?fb 0 1, ?fb 1 1, ?fb 1 (-1)]"
  let ?n3 = "\<lambda>ss. length (filter (\<lambda>s. OPEN_THREE \<le> s \<and> \<not> SIMPLE_FOUR \<le> s) ss)"
  let ?nsf = "\<lambda>ss. length (filter (\<lambda>s. SIMPLE_FOUR \<le> s \<and> \<not> OPEN_FOUR \<le> s) ss)"
  let ?nof = "\<lambda>ss. length (filter (\<lambda>s. OPEN_FOUR \<le> s) ss)"
  have A: "20000 \<le> sum_list ?A \<and> 2 \<le> ?nsf ?A"
    by (rule double_four_total [OF analyzeLinePattern_nonneg analyzeLinePattern_nonneg
          analyzeLinePattern_nonneg analyzeLinePattern_nonneg two_axes_cases [of ?fa, OF two]])
  have "(?fb 1 0 = SIMPLE_FOUR \<and> ?fb 0 1 < SIMPLE_FOUR \<and> ?fb 1 1 < SIMPLE_FOUR \<and> ?fb 1 (-1) < SIMPLE_FOUR) \<or>
         (?fb 1 0 < SIMPLE_FOUR \<and> ?fb 0 1 = SIMPLE_FOUR \<and> ?fb 1 1 < SIMPLE_FOUR \<and> ?fb 1 (-1) < SIMPLE_FOUR) \<or>
         (?fb 1 0 < SIMPLE_FOUR \<and> ?fb 0 1 < SIMPLE_FOUR \<and> ?fb 1 1 = SIMPLE_FOUR \<and> ?fb 1 (-1) < SIMPLE_FOUR) \<or>
         (?fb 1 0 < SIMPLE_FOUR \<and> ?fb 0 1 < SIMPLE_FOUR \<and> ?fb 1 1 < SIMPLE_FOUR \<and> ?fb 1 (-1) = SIMPLE_FOUR)"
    by (rule one_axis_cases [of ?fb, OF one])
  then have B: "sum_list ?B \<le> 13000 \<and> ?nof ?B = 0 \<and> ?nsf ?B = Suc 0"
    by (intro single_four_total) (blast intro: analyzeLinePattern_below_four)
  have sa: "evaluatePoint b xa ya p = Some (combo_bonus (sum_list ?A) (?nof ?A, ?nsf ?A, ?n3 ?A))"
    unfolding evaluatePoint_empty [OF ea] line_scores_unfold ..
  have sb: "evaluatePoint b xb yb p = Some (combo_bonus (sum_list ?B) (0, Suc 0, ?n3 ?B))"
    unfolding evaluatePoint_empty [OF eb] line_scores_unfold using B by simp
  have "combo_bonus (sum_list ?B) (0, Suc 0, ?n3 ?B) \<le> sum_list ?B + 79000"
    by (rule combo_bonus_upper)
  moreover have "sum_list ?A + 80000 \<le> combo_bonus (sum_list ?A) (?nof ?A, ?nsf ?A, ?n3 ?A)"
    using A by (intro combo_bonus_lower) simp
  ultimately have "combo_bonus (sum_list ?B) (0, Suc 0, ?n3 ?B)
       < combo_bonus (sum_list ?A) (?nof ?A, ?nsf ?A, ?n3 ?A)"
    using A B by linarith
  then show ?thesis
    using sa sb by blast
qed

lemma classified_double_four_outscores_single_example:
  "cell double_four_board 7 7 = 0 \<and> cell double_four_board 2 2 = 0 \<and>
   (\<exists>d1 \<in> set directions. \<exists>d2 \<in> set directions. d1 \<noteq> d2 \<and>
      analyzeLinePattern double_four_board 7 7 (fst d1) (snd d1) 1 = SIMPLE_FOUR \<and>
      analyzeLinePattern double_four_board 7 7 (fst d2) (snd d2) 1 = SIMPLE_FOUR) \<and>
   (\<exists>d \<in> set directions.
      analyzeLinePattern double_four_board 2 2 (fst d) (snd d) 1 = SIMPLE_FOUR \<and>
      (\<forall>d' \<in> set directions. d' \<noteq> d \<longrightarrow>
         analyzeLinePattern double_four_board 2 2 (fst d') (snd d') 1 < SIMPLE_FOUR)) \<and>
   (\<exists>sa sb. evaluatePoint double_four_board 7 7 1 = Some sa \<and>
      evaluatePoint double_four_board 2 2 1 = Some sb \<and> sb < sa)"
proof -
  have ea: "cell double_four_board 7 7 = 0" by code_simp
  have eb: "cell double_four_board 2 2 = 0" by code_simp
  have two: "\<exists>d1 \<in> set directions. \<exists>d2 \<in> set directions. d1 \<noteq> d2 \<and>
      analyzeLinePattern double_four_board 7 7 (fst d1) (snd d1) 1 = SIMPLE_FOUR \<and>
      analyzeLinePattern double_four_board 7 7 (fst d2) (snd d2) 1 = SIMPLE_FOUR"
    by code_simp
  have one: "\<exists>d \<in> set directions.
      analyzeLinePattern double_four_board 2 2 (fst d) (snd d) 1 = SIMPLE_FOUR \<and>
      (\<forall>d' \<in> set directions. d' \<noteq> d \<longrightarrow>
         analyzeLinePattern double_four_board 2 2 (fst d') (snd d') 1 < SIMPLE_FOUR)"
    by code_simp
  show ?thesis
    using classified_double_four_outscores_single [OF ea eb two one] ea eb two one by blast
qed

text \<open>
  C7.  On \<open>blocked_four_board\<close> a black stone at (7,7) completes a simple-four on two axes,
  the row and the column.  A black stone at (4,12) completes a simple-four on the row only:
  the four in a row from (1,12) to (4,12), whose extending end (0,12) holds a white stone
  and whose extending end (5,12) is empty; on no axis does it complete a five or an open
  four.  The classifier scores that row as an open four, and the cell with the single
  simple-four is evaluated at 600015, above the 100010 of the cell with two simple-fours
  and the compound bonus.
\<close>

theorem single_simple_four_outscores_double:
  "cell blocked_four_board 7 7 = 0 \<and> cell blocked_four_board 4 12 = 0 \<and>
   filter (completes_simple_four blocked_four_board 1 7 7) directions = [(1, 0), (0, 1)] \<and>
   filter (completes_simple_four blocked_four_board 1 4 12) directions = [(1, 0)] \<and>
   filter (completes_five blocked_four_board 1 4 12) directions = [] \<and>
   filter (completes_open_four blocked_four_board 1 4 12) directions = [] \<and>
   map (\<lambda>i. cell blocked_four_board i 12) [0, 1, 2, 3, 4, 5] = [2, 1, 1, 1, 0, 0] \<and>
   axis_scores blocked_four_board 7 7 1 = [SIMPLE_FOUR, SIMPLE_FOUR, OPEN_ONE, OPEN_ONE] \<and>
   axis_scores blocked_four_board 4 12 1 = [OPEN_FOUR, OPEN_ONE, OPEN_ONE, OPEN_ONE] \<and>
   evaluatePoint blocked_four_board 7 7 1 = Some 100010 \<and>
   evaluatePoint blocked_four_board 4 12 1 = Some 600015"
proof -
  have e: "cell blocked_four_board 7 7 = 0" "cell blocked_four_board 4 12 = 0"
    by code_simp+
  have a: "filter (completes_simple_four blocked_four_board 1 7 7) directions = [(1, 0), (0, 1)]"
    by code_simp
  have b: "filter (completes_simple_four blocked_four_board 1 4 12) directions = [(1, 0)]"
    by code_simp
  have n5: "filter (completes_five blocked_four_board 1 4 12) directions = []"
    by code_simp
  have n4: "filter (completes_open_four blocked_four_board 1 4 12) directions = []"
    by code_simp
  have r: "map (\<lambda>i. cell blocked_four_board i 12) [0, 1, 2, 3, 4, 5] = [2, 1, 1, 1, 0, 0]"
    by code_simp
  have sa: "axis_scores blocked_four_board 7 7 1 = [SIMPLE_FOUR, SIMPLE_FOUR, OPEN_ONE, OPEN_ONE]"
    by code_simp
  have sb: "axis_scores blocked_four_board 4 12 1 = [OPEN_FOUR, OPEN_ONE, OPEN_ONE, OPEN_ONE]"
    by code_simp
  have va: "evaluatePoint blocked_four_board 7 7 1 = Some 100010"
    by code_simp
  have vb: "evaluatePoint blocked_four_board 4 12 1 = Some 600015"
    by code_simp
  show ?thesis
    using e a b n5 n4 r sa sb va vb by (intro conjI)
qed

section \<open>Win detection\<close>

lemma checkWin_loop_frame:
  "snd (checkWin_loop x y p ds st) = st\<lparr>winningLine := winningLine (snd (checkWin_loop x y p ds st))\<rparr>"
  by (induction ds arbitrary: st) (auto simp: Let_def)

lemma checkWin_frame:
  "snd (checkWin x y p st) = st\<lparr>winningLine := winningLine (snd (checkWin x y p st))\<rparr>"
  unfolding checkWin_def by (rule checkWin_loop_frame)

lemma run_count_length: "run_count b p x y sx sy is = length (run_cells b p x y sx sy is)"
  by (induction "is") (simp_all add: Let_def)

lemma checkWin_loop_fst:
  "fst (checkWin_loop x y p ds st) = (\<exists>(dx, dy) \<in> set ds. 5 \<le> length (win_line (board st) x y dx dy p))"
proof (induction ds arbitrary: st)
  case Nil
  show ?case by simp
next
  case (Cons d ds)
  obtain dx dy where d: "d = (dx, dy)" by (cases d)
  show ?case
    unfolding d by (cases "5 \<le> length (win_line (board st) x y dx dy p)")
      (simp_all add: Cons.IH Let_def)
qed

lemma checkWin_fst:
  "fst (checkWin x y p st) = checkWinWithoutState (board st) x y p"
  unfolding checkWin_def checkWin_loop_fst checkWinWithoutState_def run_count_length win_line_def
  by (auto simp: directions_def)


lemma upto_1_4: "[1..4] = [1, 2, 3, 4::int]" by code_simp
lemma upto_0_4: "[0..4] = [0, 1, 2, 3, 4::int]" by code_simp

lemma run_cells_length:
  "length (run_cells b p x y sx sy [1, 2, 3, 4]) =
     (if owned b p (x + sx) (y + sy) then
        if owned b p (x + sx * 2) (y + sy * 2) then
          if owned b p (x + sx * 3) (y + sy * 3) then
            if owned b p (x + sx * 4) (y + sy * 4) then 4 else 3
          else 2
        else 1
      else 0)"
  by (simp add: owned_def in_bounds_def Let_def)

lemma win_line_five:
  "(5 \<le> length (win_line b x y dx dy p)) =
     (\<exists>k \<in> set [0..4]. \<forall>i \<in> set [0..4].
        i \<noteq> k \<longrightarrow> owned b p (x + dx * (i - k)) (y + dy * (i - k)))"
  unfolding win_line_def upto_1_4 upto_0_4 length_append length_rev run_cells_length
  by (simp) 


lemma run_cells_takeWhile:
  "run_cells b p x y sx sy is =
     map (\<lambda>i. (x + sx * i, y + sy * i)) (takeWhile (\<lambda>i. owned b p (x + sx * i) (y + sy * i)) is)"
  by (induction "is") (simp_all add: Let_def owned_def in_bounds_def)

lemma takeWhile_upto:
  "\<exists>n \<le> m. takeWhile P [1..int m] = [1..int n]"
proof (induction m)
  case 0
  show ?case by simp
next
  case (Suc m)
  then obtain n where n: "n \<le> m" "takeWhile P [1..int m] = [1..int n]" by blast
  have split: "[1..int (Suc m)] = [1..int m] @ [int m + 1]"
    using upto_rec2 [of 1 "int m + 1"] by (simp add: add.commute)
  show ?case
  proof (cases "\<forall>i \<in> set [1..int m]. P i")
    case True
    show ?thesis
    proof (cases "P (int m + 1)")
      case True
      with \<open>\<forall>i \<in> set [1..int m]. P i\<close> have "takeWhile P [1..int (Suc m)] = [1..int (Suc m)]"
        unfolding split by (subst takeWhile_append2) auto
      then show ?thesis by blast
    next
      case False
      with \<open>\<forall>i \<in> set [1..int m]. P i\<close> have "takeWhile P [1..int (Suc m)] = [1..int m]"
        unfolding split by (subst takeWhile_append2) auto
      then show ?thesis using le_SucI by blast
    qed
  next
    case False
    then obtain i where "i \<in> set [1..int m]" "\<not> P i" by blast
    then have "takeWhile P [1..int (Suc m)] = takeWhile P [1..int m]"
      unfolding split by (simp add: takeWhile_append1)
    then show ?thesis using n le_SucI by metis
  qed
qed

lemma rev_neg_upto: "rev (map (\<lambda>i. f (- i)) [1..int n]) = map f [- int n..-1]"
proof (induction n)
  case 0
  show ?case by simp
next
  case (Suc n)
  have a: "[1..int (Suc n)] = [1..int n] @ [int n + 1]"
    using upto_rec2 [of 1 "int n + 1"] by (simp add: add.commute)
  have "[- int (Suc n)..-1] = (- int (Suc n)) # [- int (Suc n) + 1..-1]"
    by (rule upto_rec1) simp
  moreover have "- int (Suc n) + 1 = - int n" by simp
  ultimately have b: "[- int (Suc n)..-1] = (- int (Suc n)) # [- int n..-1]"
    by simp
  have c: "- int n - 1 = - 1 - int n" by simp
  show ?case unfolding a b using Suc by (simp add: c)
qed

lemma win_line_shape:
  "\<exists>nb nf. nb \<le> 4 \<and> nf \<le> 4 \<and>
     win_line b x y dx dy p = map (\<lambda>i. (x + dx * i, y + dy * i)) [- int nb..int nf] \<and>
     (\<forall>i \<in> set [- int nb..int nf]. i \<noteq> 0 \<longrightarrow> owned b p (x + dx * i) (y + dy * i))"
proof -
  let ?h = "\<lambda>i. (x + dx * i, y + dy * i)"
  let ?P = "\<lambda>i. owned b p (x + dx * i) (y + dy * i)"
  let ?Q = "\<lambda>i. owned b p (x + (- dx) * i) (y + (- dy) * i)"
  obtain nf where nf: "nf \<le> 4" "takeWhile ?P [1..4] = [1..int nf]"
    using takeWhile_upto [of 4 ?P] by auto
  obtain nb where nb: "nb \<le> 4" "takeWhile ?Q [1..4] = [1..int nb]"
    using takeWhile_upto [of 4 ?Q] by auto
  have fw: "run_cells b p x y dx dy [1..4] = map ?h [1..int nf]"
    unfolding run_cells_takeWhile nf(2) ..
  have "run_cells b p x y (- dx) (- dy) [1..4] = map (\<lambda>i. ?h (- i)) [1..int nb]"
    unfolding run_cells_takeWhile nb(2) by simp
  then have bw: "rev (run_cells b p x y (- dx) (- dy) [1..4]) = map ?h [- int nb..-1]"
    using rev_neg_upto [of ?h nb] by simp
  have "[- int nb..int nf] = [- int nb..0 - 1] @ 0 # [0 + 1..int nf]"
    by (rule upto_split3) simp_all
  then have line: "win_line b x y dx dy p = map ?h [- int nb..int nf]"
    unfolding win_line_def fw bw by simp
  have pf: "\<forall>i \<in> set [1..int nf]. ?P i"
    using set_takeWhileD [of _ ?P "[1..4]"] unfolding nf(2) by blast
  have pb: "\<forall>i \<in> set [1..int nb]. ?Q i"
    using set_takeWhileD [of _ ?Q "[1..4]"] unfolding nb(2) by blast
  have "\<forall>i \<in> set [- int nb..int nf]. i \<noteq> 0 \<longrightarrow> ?P i"
  proof (intro ballI impI)
    fix i assume i: "i \<in> set [- int nb..int nf]" "i \<noteq> 0"
    show "?P i"
    proof (cases "0 < i")
      case True
      then have "i \<in> set [1..int nf]" using i by simp
      then show ?thesis using pf by blast
    next
      case False
      then have "- i \<in> set [1..int nb]" using i by simp
      then have "?Q (- i)" using pb by blast
      then show ?thesis by simp
    qed
  qed
  then show ?thesis using nf(1) nb(1) line by blast
qed


lemma checkWin_loop_snd:
  "fst (checkWin_loop x y p ds st) \<Longrightarrow>
     \<exists>(dx, dy) \<in> set ds. 5 \<le> length (win_line (board st) x y dx dy p) \<and>
        snd (checkWin_loop x y p ds st) = st\<lparr>winningLine := win_line (board st) x y dx dy p\<rparr>"
proof (induction ds arbitrary: st)
  case Nil
  then show ?case by simp
next
  case (Cons d ds)
  obtain dx dy where d: "d = (dx, dy)" by (cases d)
  show ?case
  proof (cases "5 \<le> length (win_line (board st) x y dx dy p)")
    case True
    then show ?thesis unfolding d by (simp add: Let_def)
  next
    case False
    then have "fst (checkWin_loop x y p ds st)" using Cons.prems unfolding d by (simp add: Let_def)
    from Cons.IH [OF this] show ?thesis using False unfolding d by (simp add: Let_def)
  qed
qed

lemma checkWin_loop_not:
  "\<not> fst (checkWin_loop x y p ds st) \<Longrightarrow> snd (checkWin_loop x y p ds st) = st"
proof (induction ds arbitrary: st)
  case Nil
  then show ?case by simp
next
  case (Cons d ds)
  obtain dx dy where d: "d = (dx, dy)" by (cases d)
  show ?case
    using Cons unfolding d
    by (cases "5 \<le> length (win_line (board st) x y dx dy p)") (simp_all add: Let_def)
qed

lemma checkWin_four_around: "fst (checkWin x y p st) = four_around (board st) p x y"
  unfolding checkWin_def checkWin_loop_fst four_around_def win_line_five ..

lemma five_in_row_four_around:
  "owned b p x y \<Longrightarrow> five_in_row b p x y = four_around b p x y"
proof -
  assume o: "owned b p x y"
  have "(i \<noteq> k \<longrightarrow> owned b p (x + dx * (i - k)) (y + dy * (i - k))) =
        owned b p (x + dx * (i - k)) (y + dy * (i - k))" for dx dy i k :: int
    using o by (cases "i = k") auto
  then show ?thesis unfolding five_in_row_def four_around_def by simp
qed

text \<open>
  C2.  \<^verbatim>\<open>checkWin\<close> answers true exactly when, on one of the four axes, the run counted
  forward and backward from (x, y) has five cells or more, (x, y) itself being counted
  without being inspected (\<open>four_around\<close>); when (x, y) holds the player's stone, as it does
  at every call in the source, that is a literal five in a row (\<open>five_in_row\<close>).  Runs are
  followed for four cells on each side, so six or more in a row win too.  The run found is
  stored as the winning line, in board order; without a win the state is unchanged.
  \<^verbatim>\<open>checkWinWithoutState\<close> gives the same answer.
\<close>

theorem checkWin_five_or_more:
  "fst (checkWin x y p st) = four_around (board st) p x y \<and>
   (owned (board st) p x y \<longrightarrow> fst (checkWin x y p st) = five_in_row (board st) p x y) \<and>
   checkWinWithoutState (board st) x y p = fst (checkWin x y p st) \<and>
   (fst (checkWin x y p st) \<longrightarrow>
      (\<exists>(dx, dy) \<in> set directions. \<exists>nb nf. nb \<le> 4 \<and> nf \<le> 4 \<and> 5 \<le> nb + 1 + nf \<and>
         snd (checkWin x y p st) =
           st\<lparr>winningLine := map (\<lambda>i. (x + dx * i, y + dy * i)) [- int nb..int nf]\<rparr> \<and>
         (\<forall>i \<in> set [- int nb..int nf]. i \<noteq> 0 \<longrightarrow>
            owned (board st) p (x + dx * i) (y + dy * i)))) \<and>
   (\<not> fst (checkWin x y p st) \<longrightarrow> snd (checkWin x y p st) = st)"
proof (intro conjI impI)
  show "fst (checkWin x y p st) = four_around (board st) p x y"
    by (rule checkWin_four_around)
  show "fst (checkWin x y p st) = five_in_row (board st) p x y" if "owned (board st) p x y"
    using five_in_row_four_around [OF that] checkWin_four_around by simp
  show "checkWinWithoutState (board st) x y p = fst (checkWin x y p st)"
    by (simp add: checkWin_fst)
  show "snd (checkWin x y p st) = st" if "\<not> fst (checkWin x y p st)"
    using that unfolding checkWin_def by (rule checkWin_loop_not)
  show "\<exists>(dx, dy) \<in> set directions. \<exists>nb nf. nb \<le> 4 \<and> nf \<le> 4 \<and> 5 \<le> nb + 1 + nf \<and>
         snd (checkWin x y p st) =
           st\<lparr>winningLine := map (\<lambda>i. (x + dx * i, y + dy * i)) [- int nb..int nf]\<rparr> \<and>
         (\<forall>i \<in> set [- int nb..int nf]. i \<noteq> 0 \<longrightarrow>
            owned (board st) p (x + dx * i) (y + dy * i))"
    if "fst (checkWin x y p st)"
  proof -
    from that obtain dx dy where d: "(dx, dy) \<in> set directions"
      and len: "5 \<le> length (win_line (board st) x y dx dy p)"
      and sn: "snd (checkWin x y p st) = st\<lparr>winningLine := win_line (board st) x y dx dy p\<rparr>"
      using checkWin_loop_snd [of x y p directions st] unfolding checkWin_def by blast
    obtain nb nf where n: "nb \<le> 4" "nf \<le> 4"
      and line: "win_line (board st) x y dx dy p = map (\<lambda>i. (x + dx * i, y + dy * i)) [- int nb..int nf]"
      and own: "\<forall>i \<in> set [- int nb..int nf]. i \<noteq> 0 \<longrightarrow> owned (board st) p (x + dx * i) (y + dy * i)"
      using win_line_shape [of "board st" x y dx dy p] by blast
    have "length [- int nb..int nf] = nb + 1 + nf" by simp
    then have "5 \<le> nb + 1 + nf" using len unfolding line by simp
    then show ?thesis using d n sn own unfolding line by blast
  qed
qed

theorem checkWin_five_or_more_witness:
  "owned (board six_row_state) 1 5 7 \<and>
   five_in_row (board six_row_state) 1 5 7 \<and>
   fst (checkWin 5 7 1 six_row_state) \<and>
   checkWinWithoutState (board six_row_state) 5 7 1 \<and>
   winningLine (snd (checkWin 5 7 1 six_row_state)) = [(3, 7), (4, 7), (5, 7), (6, 7), (7, 7), (8, 7)]"
proof -
  have o: "owned (board six_row_state) 1 5 7" by code_simp
  have f: "five_in_row (board six_row_state) 1 5 7" by code_simp
  have w: "winningLine (snd (checkWin 5 7 1 six_row_state)) = [(3, 7), (4, 7), (5, 7), (6, 7), (7, 7), (8, 7)]"
    by code_simp
  have "fst (checkWin 5 7 1 six_row_state) = five_in_row (board six_row_state) 1 5 7"
    using checkWin_five_or_more [of 5 7 1 six_row_state] o by blast
  then have c: "fst (checkWin 5 7 1 six_row_state)" using f by simp
  have "checkWinWithoutState (board six_row_state) 5 7 1"
    using checkWin_five_or_more [of 5 7 1 six_row_state] c by blast
  then show ?thesis using o f c w by blast
qed

section \<open>Boards and frames\<close>

lemma in_bounds_all_cells: "((i, j) \<in> set all_cells) = in_bounds i j"
  by (auto simp: all_cells_def in_bounds_def BOARD_SIZE_def intro!: bexI [of _ i])

lemma wf_board_nth:
  "wf_board b \<Longrightarrow> in_bounds x y \<Longrightarrow> nat x < length b \<and> nat y < length (b ! nat x)"
  by (auto simp: wf_board_def in_bounds_def BOARD_SIZE_def)

lemma cell_set_cell_same:
  "wf_board b \<Longrightarrow> in_bounds x y \<Longrightarrow> cell (set_cell b x y v) x y = v"
  using wf_board_nth [of b x y] by (simp add: cell_def set_cell_def)

lemma cell_set_cell_other:
  assumes "wf_board b" "in_bounds x y" "in_bounds x' y'" "(x', y') \<noteq> (x, y)"
  shows "cell (set_cell b x y v) x' y' = cell b x' y'"
proof (cases "x' = x")
  case True
  then have "nat y' \<noteq> nat y" using assms by (auto simp: in_bounds_def)
  then show ?thesis
    using True wf_board_nth [OF assms(1,2)] by (simp add: cell_def set_cell_def)
next
  case False
  then have "nat x' \<noteq> nat x" using assms by (auto simp: in_bounds_def)
  then show ?thesis by (simp add: cell_def set_cell_def)
qed

lemma set_cell_restore:
  "cell b x y = 0 \<Longrightarrow> set_cell (set_cell b x y v) x y 0 = b"
proof -
  assume z: "cell b x y = 0"
  show ?thesis
  proof (cases "nat x < length b")
    case True
    have "(b ! nat x)[nat y := 0] = b ! nat x"
      using z by (cases "nat y < length (b ! nat x)")
        (simp_all add: cell_def list_update_same_conv not_less list_update_beyond)
    then show ?thesis using True by (simp add: set_cell_def)
  next
    case False
    then show ?thesis by (simp add: set_cell_def not_less list_update_beyond)
  qed
qed

lemma wf_board_set_cell:
  assumes "wf_board b" "v \<le> 2"
  shows "wf_board (set_cell b x y v)"
proof (cases "nat x < length b")
  case False
  then show ?thesis using assms by (simp add: set_cell_def not_less list_update_beyond)
next
  case True
  let ?r = "(b ! nat x)[nat y := v]"
  have r: "b ! nat x \<in> set b" using True by simp
  have "set ?r \<subseteq> insert v (set (b ! nat x))" by (rule set_update_subset_insert)
  then have good: "length ?r = 15 \<and> (\<forall>u \<in> set ?r. u \<le> 2)"
    using r assms by (auto simp: wf_board_def)
  have "set (b[nat x := ?r]) \<subseteq> insert ?r (set b)" by (rule set_update_subset_insert)
  then have "\<forall>col \<in> set (b[nat x := ?r]). length col = 15 \<and> (\<forall>u \<in> set col. u \<le> 2)"
    using good assms(1) unfolding wf_board_def by blast
  then show ?thesis using assms(1) by (simp add: wf_board_def set_cell_def)
qed

lemma frame_refl: "frame st st"
  unfolding frame_def by (intro exI [of _ "winningLine st"] exI [of _ "nodeCount st"]) simp

lemma frame_trans:
  assumes "frame a b" "frame b c"
  shows "frame a c"
proof -
  obtain wl nc where b: "b = a\<lparr>winningLine := wl, nodeCount := nc\<rparr>"
    using assms(1) unfolding frame_def by blast
  obtain wl' nc' where c: "c = b\<lparr>winningLine := wl', nodeCount := nc'\<rparr>"
    using assms(2) unfolding frame_def by blast
  show ?thesis
    unfolding frame_def c b by (intro exI [of _ wl'] exI [of _ nc']) simp
qed

lemma frame_fields:
  assumes "frame st st'"
  shows "board st' = board st" "history st' = history st" "playerColor st' = playerColor st"
    "currentPlayer st' = currentPlayer st" "gameOver st' = gameOver st"
    "gameMode st' = gameMode st" "difficulty st' = difficulty st"
    "isAiThinking st' = isAiThinking st" "shownResult st' = shownResult st"
  using assms unfolding frame_def by auto

lemma frame_nodeCount: "frame st (st\<lparr>nodeCount := n\<rparr>)"
  unfolding frame_def by (intro exI [of _ "winningLine st"] exI [of _ n]) simp

lemma frame_winningLine: "frame st (st\<lparr>winningLine := w\<rparr>)"
  unfolding frame_def by (intro exI [of _ w] exI [of _ "nodeCount st"]) simp

lemma frame_put_back:
  assumes "cell (board st) x y = 0" "frame (put x y v st) st'"
  shows "frame st (put x y 0 st')"
proof -
  obtain wl nc where "st' = (put x y v st)\<lparr>winningLine := wl, nodeCount := nc\<rparr>"
    using assms(2) unfolding frame_def by blast
  then have "put x y 0 st' = st\<lparr>winningLine := wl, nodeCount := nc\<rparr>"
    using set_cell_restore [OF assms(1), of v] by (simp add: put_def)
  then show ?thesis unfolding frame_def by blast
qed

lemma frame_wf: "frame st st' \<Longrightarrow> wf_state st \<Longrightarrow> wf_state st'"
  unfolding wf_state_def by (simp add: frame_fields)

section \<open>Scans that try a stone\<close>

lemma board_put [simp]: "board (put x y v st) = set_cell (board st) x y v"
  by (simp add: put_def)

lemma put_other_fields [simp]:
  "history (put x y v st) = history st" "playerColor (put x y v st) = playerColor st"
  "nodeCount (put x y v st) = nodeCount st" "winningLine (put x y v st) = winningLine st"
  by (simp_all add: put_def)

lemma checkWin_frame': "frame st (snd (checkWin x y p st))"
  using checkWin_frame [of x y p st] frame_winningLine [of st] by metis

lemma try_cell_frame:
  assumes "cell (board st) i j = 0" and "checkWin i j p (put i j p st) = (w, st2)"
  shows "frame st ((put i j 0 st2)\<lparr>winningLine := []\<rparr>)"
proof -
  have "frame (put i j p st) st2"
    using checkWin_frame' [of "put i j p st" i j p] assms(2) by simp
  then have "frame st (put i j 0 st2)" by (rule frame_put_back [OF assms(1)])
  then show ?thesis using frame_winningLine frame_trans by blast
qed

lemma try_cell_win:
  assumes "checkWin i j p (put i j p st) = (w, st2)"
  shows "w = checkWinWithoutState (set_cell (board st) i j p) i j p"
  using checkWin_fst [of i j p "put i j p st"] assms by simp

lemma hasImmediateWin_loop_spec:
  "frame st (snd (hasImmediateWin_loop p cs st)) \<and>
   fst (hasImmediateWin_loop p cs st) = (\<exists>c \<in> set cs. immediate_win_at (board st) p c)"
proof (induction cs arbitrary: st)
  case Nil
  show ?case by (simp add: frame_refl)
next
  case (Cons c cs)
  obtain i j where c: "c = (i, j)" by (cases c)
  show ?case
  proof (cases "cell (board st) i j \<noteq> 0 \<or> \<not> hasNeighbor (board st) i j 2")
    case True
    then have "hasImmediateWin_loop p (c # cs) st = hasImmediateWin_loop p cs st"
      unfolding c by auto
    moreover have "\<not> immediate_win_at (board st) p c"
      using True unfolding c immediate_win_at_def by auto
    ultimately show ?thesis using Cons.IH [of st] by simp
  next
    case False
    obtain w st2 where cw: "checkWin i j p (put i j p st) = (w, st2)"
      by (cases "checkWin i j p (put i j p st)")
    let ?st4 = "(put i j 0 st2)\<lparr>winningLine := []\<rparr>"
    have fr: "frame st ?st4" using try_cell_frame [OF _ cw] False by simp
    have w: "w = immediate_win_at (board st) p c"
      using try_cell_win [OF cw] False unfolding c immediate_win_at_def by simp
    have step: "hasImmediateWin_loop p (c # cs) st =
        (if w then (True, ?st4) else hasImmediateWin_loop p cs ?st4)"
      using False cw unfolding c by (simp add: Let_def)
    show ?thesis
    proof (cases w)
      case True
      then show ?thesis using step fr w by simp
    next
      case False
      have "frame st (snd (hasImmediateWin_loop p cs ?st4))"
        using Cons.IH [of ?st4] fr frame_trans by blast
      moreover have "board ?st4 = board st" using fr by (simp add: frame_fields)
      ultimately show ?thesis using step False w Cons.IH [of ?st4] by simp
    qed
  qed
qed

lemma findImmediateWin_loop_spec:
  "frame st (snd (findImmediateWin_loop p cs st)) \<and>
   fst (findImmediateWin_loop p cs st) = find (immediate_win_at (board st) p) cs"
proof (induction cs arbitrary: st)
  case Nil
  show ?case by (simp add: frame_refl)
next
  case (Cons c cs)
  obtain i j where c: "c = (i, j)" by (cases c)
  show ?case
  proof (cases "cell (board st) i j \<noteq> 0 \<or> \<not> hasNeighbor (board st) i j 2")
    case True
    then have "findImmediateWin_loop p (c # cs) st = findImmediateWin_loop p cs st"
      unfolding c by auto
    moreover have "\<not> immediate_win_at (board st) p c"
      using True unfolding c immediate_win_at_def by auto
    ultimately show ?thesis using Cons.IH [of st] by simp
  next
    case False
    obtain w st2 where cw: "checkWin i j p (put i j p st) = (w, st2)"
      by (cases "checkWin i j p (put i j p st)")
    let ?st4 = "(put i j 0 st2)\<lparr>winningLine := []\<rparr>"
    have fr: "frame st ?st4" using try_cell_frame [OF _ cw] False by simp
    have w: "w = immediate_win_at (board st) p c"
      using try_cell_win [OF cw] False unfolding c immediate_win_at_def by simp
    have step: "findImmediateWin_loop p (c # cs) st =
        (if w then (Some c, ?st4) else findImmediateWin_loop p cs ?st4)"
      using False cw unfolding c by (simp add: Let_def)
    show ?thesis
    proof (cases w)
      case True
      then show ?thesis using step fr w by simp
    next
      case False
      have "frame st (snd (findImmediateWin_loop p cs ?st4))"
        using Cons.IH [of ?st4] fr frame_trans by blast
      moreover have "board ?st4 = board st" using fr by (simp add: frame_fields)
      ultimately show ?thesis using step False w Cons.IH [of ?st4] by simp
    qed
  qed
qed

lemma findAllDefensePoints_loop_spec:
  "snd (findAllDefensePoints_loop p cs st) = st \<and>
   fst (findAllDefensePoints_loop p cs st) = filter (immediate_win_at (board st) p) cs"
proof (induction cs arbitrary: st)
  case Nil
  show ?case by simp
next
  case (Cons c cs)
  obtain i j where c: "c = (i, j)" by (cases c)
  show ?case
  proof (cases "cell (board st) i j \<noteq> 0 \<or> \<not> hasNeighbor (board st) i j 2")
    case True
    then have "findAllDefensePoints_loop p (c # cs) st = findAllDefensePoints_loop p cs st"
      unfolding c by auto
    moreover have "\<not> immediate_win_at (board st) p c"
      using True unfolding c immediate_win_at_def by auto
    ultimately show ?thesis using Cons.IH [of st] by simp
  next
    case False
    then have e: "cell (board st) i j = 0" by simp
    have rest: "put i j 0 (put i j p st) = st"
      using set_cell_restore [OF e, of p] by (simp add: put_def)
    obtain ds st3 where r: "findAllDefensePoints_loop p cs st = (ds, st3)"
      by (cases "findAllDefensePoints_loop p cs st")
    then have ih: "st3 = st" "ds = filter (immediate_win_at (board st) p) cs"
      using Cons.IH [of st] by simp_all
    have iw: "immediate_win_at (board st) p (i, j) =
        checkWinWithoutState (set_cell (board st) i j p) i j p"
      using False by (simp add: immediate_win_at_def)
    show ?thesis
      using False r ih unfolding c
      by (simp add: Let_def rest iw)
  qed
qed

section \<open>Candidate lists and the loops of the tree search\<close>

lemma hasImmediateWin_frame: "frame st (snd (hasImmediateWin p st))"
  unfolding hasImmediateWin_def using hasImmediateWin_loop_spec by blast

lemma findImmediateWin_frame: "frame st (snd (findImmediateWin p st))"
  unfolding findImmediateWin_def using findImmediateWin_loop_spec by blast

lemma findImmediateWin_fst:
  "fst (findImmediateWin p st) = find (immediate_win_at (board st) p) all_cells"
  unfolding findImmediateWin_def using findImmediateWin_loop_spec by blast

lemma findAllDefensePoints_spec:
  "findAllDefensePoints p st = (filter (immediate_win_at (board st) p) all_cells, st)"
  unfolding findAllDefensePoints_def
  using findAllDefensePoints_loop_spec [of p all_cells st] by (simp add: prod_eq_iff)

lemma candidate_cell_iff:
  "candidate_cell b (i, j) = ((i, j) \<in> set all_cells \<and> cell b i j = 0 \<and> hasNeighbor b i j 2)"
  by (simp add: candidate_cell_def in_bounds_all_cells)

lemma ranked_candidates_cells:
  assumes "c \<in> set (ranked_candidates b ai opp limit)"
  shows "candidate_cell b (fst c)"
proof -
  have "c \<in> set (sort_key (\<lambda>c. - snd c)
       [((i, j), candidate_score b ai opp i j).
          (i, j) \<leftarrow> all_cells, cell b i j = 0 \<and> hasNeighbor b i j 2])"
    using assms unfolding ranked_candidates_def by (rule in_set_takeD)
  then obtain i j where "fst c = (i, j)" "(i, j) \<in> set all_cells" "cell b i j = 0" "hasNeighbor b i j 2"
    by auto
  then show ?thesis by (simp add: candidate_cell_iff)
qed

lemma getCandidatesImproved_cells:
  "c \<in> set (getCandidatesImproved ai limit st) \<Longrightarrow> candidate_cell (board st) (fst c)"
  unfolding getCandidatesImproved_def by (rule ranked_candidates_cells)

lemma max_loop_frame:
  assumes "\<And>a b s. frame s (snd (rec a b s))"
    and "\<forall>c \<in> set cs. cell (board st) (fst (fst c)) (snd (fst c)) = 0"
  shows "frame st (snd (max_loop rec stone cs m al be st))"
  using assms(2)
proof (induction cs arbitrary: st m al)
  case Nil
  show ?case by (simp add: frame_refl)
next
  case (Cons c cs)
  obtain x y sc where c: "c = ((x, y), sc)" by (cases c) auto
  obtain score st2 where r: "rec al be (put x y stone st) = (score, st2)"
    by (cases "rec al be (put x y stone st)")
  have e: "cell (board st) x y = 0" using Cons.prems unfolding c by simp
  have "frame (put x y stone st) st2" using assms(1) [of "put x y stone st" al be] r by simp
  then have fr: "frame st (put x y 0 st2)" by (rule frame_put_back [OF e])
  then have "board (put x y 0 st2) = board st" by (rule frame_fields)
  then have "\<forall>c \<in> set cs. cell (board (put x y 0 st2)) (fst (fst c)) (snd (fst c)) = 0"
    using Cons.prems by simp
  from Cons.IH [OF this] have "frame st (snd (max_loop rec stone cs m' al' be (put x y 0 st2)))" for m' al'
    using fr frame_trans by blast
  then show ?case using fr r unfolding c by (simp add: Let_def)
qed

lemma min_loop_frame:
  assumes "\<And>a b s. frame s (snd (rec a b s))"
    and "\<forall>c \<in> set cs. cell (board st) (fst (fst c)) (snd (fst c)) = 0"
  shows "frame st (snd (min_loop rec stone cs m al be st))"
  using assms(2)
proof (induction cs arbitrary: st m be)
  case Nil
  show ?case by (simp add: frame_refl)
next
  case (Cons c cs)
  obtain x y sc where c: "c = ((x, y), sc)" by (cases c) auto
  obtain score st2 where r: "rec al be (put x y stone st) = (score, st2)"
    by (cases "rec al be (put x y stone st)")
  have e: "cell (board st) x y = 0" using Cons.prems unfolding c by simp
  have "frame (put x y stone st) st2" using assms(1) [of "put x y stone st" al be] r by simp
  then have fr: "frame st (put x y 0 st2)" by (rule frame_put_back [OF e])
  then have "board (put x y 0 st2) = board st" by (rule frame_fields)
  then have "\<forall>c \<in> set cs. cell (board (put x y 0 st2)) (fst (fst c)) (snd (fst c)) = 0"
    using Cons.prems by simp
  from Cons.IH [OF this] have "frame st (snd (min_loop rec stone cs m' al be' (put x y 0 st2)))" for m' be'
    using fr frame_trans by blast
  then show ?case using fr r unfolding c by (simp add: Let_def)
qed

lemma xmax_Fin: "m = MInf \<or> (\<exists>r. m = Fin r) \<Longrightarrow> \<exists>r. xmax m (Fin s) = Fin r"
  by (auto simp: xmax_def)

lemma xmin_Fin: "m = PInf \<or> (\<exists>r. m = Fin r) \<Longrightarrow> \<exists>r. xmin m (Fin s) = Fin r"
  by (auto simp: xmin_def)

lemma max_loop_Fin:
  assumes "\<And>a b s. \<exists>r. fst (rec a b s) = Fin r"
    and "(cs \<noteq> [] \<and> m = MInf) \<or> (\<exists>r. m = Fin r)"
  shows "\<exists>r. fst (max_loop rec stone cs m al be st) = Fin r"
  using assms(2)
proof (induction cs arbitrary: st m al)
  case Nil
  then show ?case by simp
next
  case (Cons c cs)
  obtain x y sc where c: "c = ((x, y), sc)" by (cases c) auto
  obtain s st2 where r: "rec al be (put x y stone st) = (Fin s, st2)"
    using assms(1) [of al be "put x y stone st"] by (cases "rec al be (put x y stone st)") auto
  obtain q where q: "xmax m (Fin s) = Fin q" using xmax_Fin [of m s] Cons.prems by auto
  have "\<exists>r. fst (max_loop rec stone cs (Fin q) al' be st') = Fin r" for al' st'
    by (rule Cons.IH) simp
  then show ?case using r q unfolding c by (simp add: Let_def)
qed

lemma min_loop_Fin:
  assumes "\<And>a b s. \<exists>r. fst (rec a b s) = Fin r"
    and "(cs \<noteq> [] \<and> m = PInf) \<or> (\<exists>r. m = Fin r)"
  shows "\<exists>r. fst (min_loop rec stone cs m al be st) = Fin r"
  using assms(2)
proof (induction cs arbitrary: st m be)
  case Nil
  then show ?case by simp
next
  case (Cons c cs)
  obtain x y sc where c: "c = ((x, y), sc)" by (cases c) auto
  obtain s st2 where r: "rec al be (put x y stone st) = (Fin s, st2)"
    using assms(1) [of al be "put x y stone st"] by (cases "rec al be (put x y stone st)") auto
  obtain q where q: "xmin m (Fin s) = Fin q" using xmin_Fin [of m s] Cons.prems by auto
  have "\<exists>r. fst (min_loop rec stone cs (Fin q) al be' st') = Fin r" for be' st'
    by (rule Cons.IH) simp
  then show ?case using r q unfolding c by (simp add: Let_def)
qed

section \<open>Minimax: frame and finite scores\<close>

lemma candidates_empty_cells:
  "\<forall>c \<in> set (getCandidatesImproved ai limit st). cell (board st) (fst (fst c)) (snd (fst c)) = 0"
  using getCandidatesImproved_cells [of _ ai limit st] by (auto simp: candidate_cell_def)

lemma minimax_body_frame:
  assumes "\<And>a b m p s. frame s (snd (rec a b m p s))"
  shows "frame st (snd (minimax_body d rec al be isMax ai st))"
proof -
  let ?st0 = "st\<lparr>nodeCount := nodeCount st + 1\<rparr>"
  obtain w1 st1 where h1: "hasImmediateWin ai ?st0 = (w1, st1)"
    by (cases "hasImmediateWin ai ?st0")
  obtain w2 st2 where h2: "hasImmediateWin (playerColor ?st0) st1 = (w2, st2)"
    by (cases "hasImmediateWin (playerColor ?st0) st1")
  have f0: "frame st ?st0" by (rule frame_nodeCount)
  have f1: "frame st st1"
    using hasImmediateWin_frame [of ?st0 ai] h1 f0 frame_trans by fastforce
  have f2: "frame st st2"
    using hasImmediateWin_frame [of st1 "playerColor ?st0"] h2 f1 frame_trans by fastforce
  let ?cs = "getCandidates ai HARD_SEARCH_LIMIT st2"
  have e: "\<forall>c \<in> set ?cs. cell (board st2) (fst (fst c)) (snd (fst c)) = 0"
    unfolding getCandidates_def by (rule candidates_empty_cells)
  have fmax: "frame st (snd (max_loop (\<lambda>a b. rec a b False ai) ai ?cs MInf al be st2))"
    using max_loop_frame [of "\<lambda>a b. rec a b False ai" ?cs st2, OF assms e] f2 frame_trans by blast
  have fmin: "frame st (snd (min_loop (\<lambda>a b. rec a b True ai) (playerColor st2) ?cs PInf al be st2))"
    using min_loop_frame [of "\<lambda>a b. rec a b True ai" ?cs st2, OF assms e] f2 frame_trans by blast
  show ?thesis
    unfolding minimax_body_def Let_def h1 h2 prod.case
    using f1 f2 fmax fmin by simp
qed

lemma minimax_body_Fin:
  assumes "\<And>a b m p s. \<exists>r. fst (rec a b m p s) = Fin r"
  shows "\<exists>r. fst (minimax_body d rec al be isMax ai st) = Fin r"
proof -
  let ?st0 = "st\<lparr>nodeCount := nodeCount st + 1\<rparr>"
  obtain w1 st1 where h1: "hasImmediateWin ai ?st0 = (w1, st1)"
    by (cases "hasImmediateWin ai ?st0")
  obtain w2 st2 where h2: "hasImmediateWin (playerColor ?st0) st1 = (w2, st2)"
    by (cases "hasImmediateWin (playerColor ?st0) st1")
  let ?cs = "getCandidates ai HARD_SEARCH_LIMIT st2"
  have fmax: "?cs \<noteq> [] \<Longrightarrow>
      \<exists>r. fst (max_loop (\<lambda>a b. rec a b False ai) ai ?cs MInf al be st2) = Fin r"
    by (rule max_loop_Fin) (simp_all add: assms)
  have fmin: "?cs \<noteq> [] \<Longrightarrow>
      \<exists>r. fst (min_loop (\<lambda>a b. rec a b True ai) (playerColor st2) ?cs PInf al be st2) = Fin r"
    by (rule min_loop_Fin) (simp_all add: assms)
  show ?thesis
    unfolding minimax_body_def Let_def h1 h2 prod.case
    using fmax fmin by simp
qed

lemma minimax_frame: "frame st (snd (minimax d al be isMax ai st))"
proof (induction d arbitrary: st al be isMax ai)
  case 0
  show ?case unfolding minimax.simps by (rule minimax_body_frame) (simp add: frame_refl)
next
  case (Suc d)
  show ?case unfolding minimax.simps by (rule minimax_body_frame) (rule Suc)
qed

lemma minimax_Fin: "\<exists>r. fst (minimax d al be isMax ai st) = Fin r"
proof (induction d arbitrary: st al be isMax ai)
  case 0
  show ?case unfolding minimax.simps by (rule minimax_body_Fin) simp
next
  case (Suc d)
  show ?case unfolding minimax.simps by (rule minimax_body_Fin) (rule Suc)
qed

lemma minimaxHell_body_frame:
  assumes "\<And>a b m p s. frame s (snd (rec a b m p s))"
  shows "frame st (snd (minimaxHell_body d rec al be isMax ai st))"
proof -
  let ?st0 = "st\<lparr>nodeCount := nodeCount st + 1\<rparr>"
  obtain w1 st1 where h1: "hasImmediateWin ai ?st0 = (w1, st1)"
    by (cases "hasImmediateWin ai ?st0")
  obtain w2 st2 where h2: "hasImmediateWin (playerColor ?st0) st1 = (w2, st2)"
    by (cases "hasImmediateWin (playerColor ?st0) st1")
  have f0: "frame st ?st0" by (rule frame_nodeCount)
  have f1: "frame st st1"
    using hasImmediateWin_frame [of ?st0 ai] h1 f0 frame_trans by fastforce
  have f2: "frame st st2"
    using hasImmediateWin_frame [of st1 "playerColor ?st0"] h2 f1 frame_trans by fastforce
  let ?cs = "getCandidatesImproved ai HELL_SEARCH_LIMIT st2"
  have e: "\<forall>c \<in> set ?cs. cell (board st2) (fst (fst c)) (snd (fst c)) = 0"
    by (rule candidates_empty_cells)
  have fmax: "frame st (snd (max_loop (\<lambda>a b. rec a b False ai) ai ?cs MInf al be st2))"
    using max_loop_frame [of "\<lambda>a b. rec a b False ai" ?cs st2, OF assms e] f2 frame_trans by blast
  have fmin: "frame st (snd (min_loop (\<lambda>a b. rec a b True ai) (playerColor ?st0) ?cs PInf al be st2))"
    using min_loop_frame [of "\<lambda>a b. rec a b True ai" ?cs st2, OF assms e] f2 frame_trans by blast
  show ?thesis
    unfolding minimaxHell_body_def Let_def h1 h2 prod.case
    using f1 f2 fmax fmin by simp
qed

lemma minimaxHell_body_Fin:
  assumes "\<And>a b m p s. \<exists>r. fst (rec a b m p s) = Fin r"
  shows "\<exists>r. fst (minimaxHell_body d rec al be isMax ai st) = Fin r"
proof -
  let ?st0 = "st\<lparr>nodeCount := nodeCount st + 1\<rparr>"
  obtain w1 st1 where h1: "hasImmediateWin ai ?st0 = (w1, st1)"
    by (cases "hasImmediateWin ai ?st0")
  obtain w2 st2 where h2: "hasImmediateWin (playerColor ?st0) st1 = (w2, st2)"
    by (cases "hasImmediateWin (playerColor ?st0) st1")
  let ?cs = "getCandidatesImproved ai HELL_SEARCH_LIMIT st2"
  have fmax: "?cs \<noteq> [] \<Longrightarrow>
      \<exists>r. fst (max_loop (\<lambda>a b. rec a b False ai) ai ?cs MInf al be st2) = Fin r"
    by (rule max_loop_Fin) (simp_all add: assms)
  have fmin: "?cs \<noteq> [] \<Longrightarrow>
      \<exists>r. fst (min_loop (\<lambda>a b. rec a b True ai) (playerColor ?st0) ?cs PInf al be st2) = Fin r"
    by (rule min_loop_Fin) (simp_all add: assms)
  show ?thesis
    unfolding minimaxHell_body_def Let_def h1 h2 prod.case
    using fmax fmin by simp
qed

lemma minimaxHellImproved_frame: "frame st (snd (minimaxHellImproved d al be isMax ai st))"
proof (induction d arbitrary: st al be isMax ai)
  case 0
  show ?case unfolding minimaxHellImproved.simps
    by (rule minimaxHell_body_frame) (simp add: frame_refl)
next
  case (Suc d)
  show ?case unfolding minimaxHellImproved.simps by (rule minimaxHell_body_frame) (rule Suc)
qed

lemma minimaxHellImproved_Fin: "\<exists>r. fst (minimaxHellImproved d al be isMax ai st) = Fin r"
proof (induction d arbitrary: st al be isMax ai)
  case 0
  show ?case unfolding minimaxHellImproved.simps by (rule minimaxHell_body_Fin) simp
next
  case (Suc d)
  show ?case unfolding minimaxHellImproved.simps by (rule minimaxHell_body_Fin) (rule Suc)
qed

lemma root_loop_frame:
  assumes "\<And>s. frame s (snd (search s))"
    and "\<forall>c \<in> set cs. cell (board st) (fst (fst c)) (snd (fst c)) = 0"
  shows "frame st (snd (root_loop search ai cs bm bs st))"
  using assms(2)
proof (induction cs arbitrary: st bm bs)
  case Nil
  show ?case by (simp add: frame_refl)
next
  case (Cons c cs)
  obtain x y sc where c: "c = ((x, y), sc)" by (cases c) auto
  obtain score st2 where r: "search (put x y ai st) = (score, st2)"
    by (cases "search (put x y ai st)")
  have e: "cell (board st) x y = 0" using Cons.prems unfolding c by simp
  have "frame (put x y ai st) st2" using assms(1) [of "put x y ai st"] r by simp
  then have fr: "frame st (put x y 0 st2)" by (rule frame_put_back [OF e])
  then have "board (put x y 0 st2) = board st" by (rule frame_fields)
  then have "\<forall>c \<in> set cs. cell (board (put x y 0 st2)) (fst (fst c)) (snd (fst c)) = 0"
    using Cons.prems by simp
  from Cons.IH [OF this] have "frame st (snd (root_loop search ai cs bm' bs' (put x y 0 st2)))" for bm' bs'
    using fr frame_trans by blast
  then show ?case using r unfolding c by (simp add: Let_def)
qed

lemma root_loop_result:
  assumes "\<And>s. \<exists>r. fst (search s) = Fin r"
    and "bm = None \<longrightarrow> bs = MInf"
  shows "(cs = [] \<and> bm = None \<and> fst (root_loop search ai cs bm bs st) = None) \<or>
         (\<exists>m. fst (root_loop search ai cs bm bs st) = Some m \<and> (Some m = bm \<or> m \<in> fst ` set cs))"
  using assms(2)
proof (induction cs arbitrary: st bm bs)
  case Nil
  then show ?case by (cases bm) simp_all
next
  case (Cons c cs)
  obtain x y sc where c: "c = ((x, y), sc)" by (cases c) auto
  obtain s st2 where r: "search (put x y ai st) = (Fin s, st2)"
    using assms(1) [of "put x y ai st"] by (cases "search (put x y ai st)") auto
  let ?st3 = "put x y 0 st2"
  show ?case
  proof (cases "xgt (Fin s) bs")
    case True
    have "\<exists>m. fst (root_loop search ai cs (Some (x, y)) (Fin s) ?st3) = Some m \<and>
              (Some m = Some (x, y) \<or> m \<in> fst ` set cs)"
      using Cons.IH [of "Some (x, y)" "Fin s" ?st3] by simp
    then show ?thesis using True r unfolding c by (auto simp: Let_def)
  next
    case False
    then have "bs \<noteq> MInf" by (auto simp: xgt_def)
    then obtain m0 where bm: "bm = Some m0" using Cons.prems by (cases bm) auto
    have "\<exists>m. fst (root_loop search ai cs bm bs ?st3) = Some m \<and>
              (Some m = bm \<or> m \<in> fst ` set cs)"
      using Cons.IH [of bm bs ?st3] bm by simp
    then show ?thesis using False r unfolding c by (auto simp: Let_def)
  qed
qed

section \<open>The root of the tree search\<close>

lemma scored_cells_conv:
  "[((i, j), f i j). (i, j) \<leftarrow> cs, P i j] =
     map (\<lambda>c. (c, f (fst c) (snd c))) (filter (\<lambda>c. P (fst c) (snd c)) cs)"
  by (induction cs) auto


lemma take_nonempty: "0 < n \<Longrightarrow> xs \<noteq> [] \<Longrightarrow> take n xs \<noteq> []"
  by (cases n; cases xs) simp_all

lemma no_candidates:
  assumes "getCandidatesImproved ai limit st = []" "0 < limit"
  shows "\<not> candidate_cell (board st) c"
proof
  assume cc: "candidate_cell (board st) c"
  let ?P = "\<lambda>c. cell (board st) (fst c) (snd c) = 0 \<and> hasNeighbor (board st) (fst c) (snd c) 2"
  let ?g = "\<lambda>c. (c, candidate_score (board st) ai (playerColor st) (fst c) (snd c))"
  have "c \<in> set (filter ?P all_cells)"
    using cc in_bounds_all_cells [of "fst c" "snd c"] unfolding candidate_cell_def by simp
  then have "filter ?P all_cells \<noteq> []" by (cases "filter ?P all_cells") simp_all
  then have "map ?g (filter ?P all_cells) \<noteq> []" by simp
  then have "length (sort_key (\<lambda>c. - snd c) (map ?g (filter ?P all_cells))) \<noteq> 0"
    unfolding length_sort by simp
  then have "sort_key (\<lambda>c. - snd c) (map ?g (filter ?P all_cells)) \<noteq> []"
    unfolding length_0_conv .
  then have "take limit (sort_key (\<lambda>c. - snd c) (map ?g (filter ?P all_cells))) \<noteq> []"
    by (rule take_nonempty [OF assms(2)])
  moreover have "getCandidatesImproved ai limit st =
      take limit (sort_key (\<lambda>c. - snd c) (map ?g (filter ?P all_cells)))"
    unfolding getCandidatesImproved_def ranked_candidates_def scored_cells_conv ..
  ultimately show False using assms(1) by simp
qed


lemma root_search_spec:
  assumes fr: "\<And>s. frame s (snd (search s))"
    and fin: "\<And>s. \<exists>r. fst (search s) = Fin r"
    and lim: "0 < limit"
  shows "frame st (snd (root_loop search ai (getCandidatesImproved ai limit st) None MInf st)) \<and>
    (\<forall>bestMove m.
       bestMove = fst (root_loop search ai (getCandidatesImproved ai limit st) None MInf st) \<longrightarrow>
       m = (if bestMove \<noteq> None then the bestMove else (7, 7)) \<longrightarrow>
       candidate_cell (board st) m \<or> (m = (7, 7) \<and> (\<forall>c. \<not> candidate_cell (board st) c)))"
proof -
  let ?cs = "getCandidatesImproved ai limit st"
  let ?r = "fst (root_loop search ai ?cs None MInf st)"
  have f: "frame st (snd (root_loop search ai ?cs None MInf st))"
    by (rule root_loop_frame [OF fr candidates_empty_cells])
  have "(?cs = [] \<and> None = None \<and> ?r = None) \<or>
        (\<exists>m. ?r = Some m \<and> (Some m = None \<or> m \<in> fst ` set ?cs))"
    using root_loop_result [where search = search and bm = None and bs = MInf
        and cs = ?cs and ai = ai and st = st] fin by simp
  then have "(?cs = [] \<and> ?r = None) \<or> (\<exists>m. ?r = Some m \<and> m \<in> fst ` set ?cs)"
    by simp
  then show ?thesis
  proof (elim disjE conjE exE)
    assume 1: "?cs = []" "?r = None"
    have "\<forall>c. \<not> candidate_cell (board st) c" using no_candidates [OF 1(1) lim] by blast
    then show ?thesis using f 1(2) by simp
  next
    fix m assume 2: "?r = Some m" "m \<in> fst ` set ?cs"
    from 2(2) obtain c where "m = fst c" "c \<in> set ?cs" by (rule imageE)
    then have "candidate_cell (board st) m" using getCandidatesImproved_cells by blast
    then show ?thesis using f 2(1) by simp
  qed
qed


lemma hardMinimax_spec:
  "frame st (snd (hardMinimax ai st)) \<and>
   (candidate_cell (board st) (fst (hardMinimax ai st)) \<or>
    (fst (hardMinimax ai st) = (7, 7) \<and> (\<forall>c. \<not> candidate_cell (board st) c)))"
proof -
  let ?search = "minimax (HARD_SEARCH_DEPTH - 1) MInf PInf False ai"
  obtain bm st1 where r: "root_loop ?search ai
      (getCandidatesImproved ai HARD_CANDIDATE_LIMIT st) None MInf st = (bm, st1)"
    by (cases "root_loop ?search ai (getCandidatesImproved ai HARD_CANDIDATE_LIMIT st) None MInf st")
  have h: "hardMinimax ai st = (if bm \<noteq> None then the bm else (7, 7), st1)"
    unfolding hardMinimax_def Let_def r by simp
  have "0 < HARD_CANDIDATE_LIMIT" by (simp add: HARD_CANDIDATE_LIMIT_def)
  from root_search_spec [of ?search HARD_CANDIDATE_LIMIT st ai, OF minimax_frame minimax_Fin this]
  show ?thesis unfolding h r by simp
qed

lemma hellMinimaxImproved_spec:
  "frame st (snd (hellMinimaxImproved ai st)) \<and>
   (candidate_cell (board st) (fst (hellMinimaxImproved ai st)) \<or>
    (fst (hellMinimaxImproved ai st) = (7, 7) \<and> (\<forall>c. \<not> candidate_cell (board st) c)))"
proof -
  let ?search = "minimaxHellImproved (HELL_SEARCH_DEPTH - 1) MInf PInf False ai"
  obtain bm st1 where r: "root_loop ?search ai
      (getCandidatesImproved ai HELL_CANDIDATE_LIMIT st) None MInf st = (bm, st1)"
    by (cases "root_loop ?search ai (getCandidatesImproved ai HELL_CANDIDATE_LIMIT st) None MInf st")
  have h: "hellMinimaxImproved ai st = (if bm \<noteq> None then the bm else (7, 7), st1)"
    unfolding hellMinimaxImproved_def Let_def r by simp
  have "0 < HELL_CANDIDATE_LIMIT" by (simp add: HELL_CANDIDATE_LIMIT_def)
  from root_search_spec [of ?search HELL_CANDIDATE_LIMIT st ai,
      OF minimaxHellImproved_frame minimaxHellImproved_Fin this]
  show ?thesis unfolding h r by simp
qed

section \<open>Forcing-sequence searches\<close>

lemma immediate_win_at_empty: "immediate_win_at b p c \<Longrightarrow> cell b (fst c) (snd c) = 0"
  by (simp add: immediate_win_at_def)

lemma vcf_defense_loop_frame:
  assumes "\<And>s. frame s (snd (rec s))"
    and "\<forall>c \<in> set ds. cell (board st) (fst c) (snd c) = 0"
  shows "frame st (snd (vcf_defense_loop rec opp ds st))"
  using assms(2)
proof (induction ds arbitrary: st)
  case Nil
  show ?case by (simp add: frame_refl)
next
  case (Cons c ds)
  obtain x y where c: "c = (x, y)" by (cases c)
  obtain res st2 where r: "rec (put x y opp st) = (res, st2)"
    by (cases "rec (put x y opp st)")
  have e: "cell (board st) x y = 0" using Cons.prems unfolding c by simp
  have "frame (put x y opp st) st2" using assms(1) [of "put x y opp st"] r by simp
  then have fr: "frame st (put x y 0 st2)" by (rule frame_put_back [OF e])
  then have "board (put x y 0 st2) = board st" by (rule frame_fields)
  then have "\<forall>c \<in> set ds. cell (board (put x y 0 st2)) (fst c) (snd c) = 0"
    using Cons.prems by simp
  from Cons.IH [OF this] have "frame st (snd (vcf_defense_loop rec opp ds (put x y 0 st2)))"
    using fr frame_trans by blast
  then show ?case using fr r unfolding c by (simp add: Let_def)
qed

lemma vcf_move_loop_frame:
  assumes "\<And>s. frame s (snd (rec s))"
    and "\<forall>c \<in> set ms. cell (board st) (fst (fst c)) (snd (fst c)) = 0"
  shows "frame st (snd (vcf_move_loop rec p opp ms st))"
  using assms(2)
proof (induction ms arbitrary: st)
  case Nil
  show ?case by (simp add: frame_refl)
next
  case (Cons c ms)
  obtain x y sc where c: "c = ((x, y), sc)" by (cases c) auto
  have e: "cell (board st) x y = 0" using Cons.prems unfolding c by simp
  let ?st1 = "put x y p st"
  have rest: "put x y 0 ?st1 = st"
    using set_cell_restore [OF e, of p] by (simp add: put_def)
  let ?dps = "filter (immediate_win_at (board ?st1) p) all_cells"
  have dp: "findAllDefensePoints p ?st1 = (?dps, ?st1)" by (rule findAllDefensePoints_spec)
  obtain fail st3 where d: "vcf_defense_loop rec opp ?dps ?st1 = (fail, st3)"
    by (cases "vcf_defense_loop rec opp ?dps ?st1")
  have "\<forall>c \<in> set ?dps. cell (board ?st1) (fst c) (snd c) = 0"
    using immediate_win_at_empty by auto
  then have "frame ?st1 st3"
    using vcf_defense_loop_frame [of rec ?dps ?st1 opp, OF assms(1)] d by simp
  then have fr: "frame st (put x y 0 st3)" by (rule frame_put_back [OF e])
  then have "board (put x y 0 st3) = board st" by (rule frame_fields)
  then have "\<forall>c \<in> set ms. cell (board (put x y 0 st3)) (fst (fst c)) (snd (fst c)) = 0"
    using Cons.prems by simp
  from Cons.IH [OF this] have "frame st (snd (vcf_move_loop rec p opp ms (put x y 0 st3)))"
    using fr frame_trans by blast
  then show ?case
    using fr unfolding c vcf_move_loop.simps Let_def rest dp d prod.case
    by (simp add: frame_refl)
qed

lemma vcf_move_loop_result:
  "fst (vcf_move_loop rec p opp ms st) = Some m \<Longrightarrow> m \<in> fst ` set ms"
proof (induction ms arbitrary: st)
  case Nil
  then show ?case by simp
next
  case (Cons c ms)
  obtain x y sc where c: "c = ((x, y), sc)" by (cases c) auto
  let ?st1 = "put x y p st"
  obtain dps st2 where dp: "findAllDefensePoints p ?st1 = (dps, st2)"
    by (cases "findAllDefensePoints p ?st1")
  obtain fail st3 where d: "vcf_defense_loop rec opp dps st2 = (fail, st3)"
    by (cases "vcf_defense_loop rec opp dps st2")
  have "m = (x, y) \<or> fst (vcf_move_loop rec p opp ms (put x y 0 st3)) = Some m"
    using Cons.prems unfolding c vcf_move_loop.simps Let_def dp d prod.case
    by (simp split: if_splits)
  then show ?case using Cons.IH unfolding c by auto
qed

section \<open>Cells returned by the scans\<close>

lemma findAllRushFoursImproved_cells:
  assumes "c \<in> set (findAllRushFoursImproved b p)"
  shows "candidate_cell b (fst c)"
proof -
  have "c \<in> set (sort_key (\<lambda>c. - snd c)
       [((i, j), maxScore).
          (i, j) \<leftarrow> all_cells, cell b i j = 0 \<and> hasNeighbor b i j 2,
          maxScore \<leftarrow> [foldl (\<lambda>maxScore lineScore.
                                 if lineScore \<ge> RUSH_FOUR then max maxScore lineScore else maxScore)
                           0 (line_scores b i j p)],
          maxScore \<ge> RUSH_FOUR])"
    using assms unfolding findAllRushFoursImproved_def by (rule in_set_takeD)
  then obtain i j where "fst c = (i, j)" "(i, j) \<in> set all_cells" "cell b i j = 0" "hasNeighbor b i j 2"
    by auto
  then show ?thesis by (simp add: candidate_cell_iff)
qed

lemma findAllThreatsImproved_cells:
  assumes "c \<in> set (findAllThreatsImproved b p)"
  shows "candidate_cell b (fst c)"
proof -
  obtain i j where "fst c = (i, j)" "(i, j) \<in> set all_cells" "cell b i j = 0" "hasNeighbor b i j 2"
    using assms unfolding findAllThreatsImproved_def by auto
  then show ?thesis by (simp add: candidate_cell_iff)
qed

lemma find_candidate:
  assumes "find (\<lambda>(i, j). cell b i j = 0 \<and> hasNeighbor b i j 2 \<and> Q i j) all_cells = Some m"
  shows "candidate_cell b m"
proof -
  obtain i j where m: "m = (i, j)" by (cases m)
  have "m \<in> set all_cells \<and> (\<lambda>(i, j). cell b i j = 0 \<and> hasNeighbor b i j 2 \<and> Q i j) m"
    using assms unfolding find_Some_iff by (metis nth_mem)
  then show ?thesis unfolding m by (simp add: candidate_cell_iff)
qed

lemma findThreat_cell: "findThreat b p s = Some m \<Longrightarrow> candidate_cell b m"
  unfolding findThreat_def by (rule find_candidate)

lemma findDoubleRushFour_cell: "findDoubleRushFour b p = Some m \<Longrightarrow> candidate_cell b m"
  unfolding findDoubleRushFour_def by (rule find_candidate)

lemma findFourThreeCombo_cell: "findFourThreeCombo b p = Some m \<Longrightarrow> candidate_cell b m"
  unfolding findFourThreeCombo_def by (rule find_candidate)

lemma findDoubleThree_cell: "findDoubleThree b p = Some m \<Longrightarrow> candidate_cell b m"
  unfolding findDoubleThree_def by (rule find_candidate)

lemma immediate_win_at_candidate:
  "c \<in> set all_cells \<Longrightarrow> immediate_win_at b p c \<Longrightarrow> candidate_cell b c"
  by (cases c) (simp add: immediate_win_at_def candidate_cell_iff)

lemma findImmediateWin_cell:
  assumes "fst (findImmediateWin p st) = Some m"
  shows "candidate_cell (board st) m \<and> immediate_win_at (board st) p m"
proof -
  have "m \<in> set all_cells \<and> immediate_win_at (board st) p m"
    using assms unfolding findImmediateWin_fst find_Some_iff by (metis nth_mem)
  then show ?thesis using immediate_win_at_candidate by blast
qed

lemma vcf_body_spec:
  assumes "\<And>a s. frame s (snd (rec a s))"
  shows "frame st (snd (vcf_body d rec p opp att st)) \<and>
         (\<forall>m. fst (vcf_body d rec p opp att st) = Some m \<longrightarrow> candidate_cell (board st) m)"
proof -
  let ?st0 = "st\<lparr>nodeCount := nodeCount st + 1\<rparr>"
  obtain w st1 where h: "hasImmediateWin p ?st0 = (w, st1)"
    by (cases "hasImmediateWin p ?st0")
  have f0: "frame st ?st0" by (rule frame_nodeCount)
  have f1: "frame st st1"
    using hasImmediateWin_frame [of ?st0 p] h f0 frame_trans by fastforce
  have b1: "board st1 = board st" using f1 by (rule frame_fields)
  have fw: "frame st (snd (findImmediateWin p st1))"
    using findImmediateWin_frame [of st1 p] f1 frame_trans by blast
  have cw: "fst (findImmediateWin p st1) = Some m \<Longrightarrow> candidate_cell (board st) m" for m
    using findImmediateWin_cell [of p st1 m] b1 by simp
  let ?ms = "findAllRushFoursImproved (board st1) p"
  have e: "\<forall>c \<in> set ?ms. cell (board st1) (fst (fst c)) (snd (fst c)) = 0"
    using findAllRushFoursImproved_cells [of _ "board st1" p] by (auto simp: candidate_cell_def)
  have fl: "frame st (snd (vcf_move_loop (rec True) p opp ?ms st1))"
    using vcf_move_loop_frame [of "rec True" ?ms st1 p opp, OF assms e] f1 frame_trans by blast
  have cl: "fst (vcf_move_loop (rec True) p opp ?ms st1) = Some m \<Longrightarrow> candidate_cell (board st) m" for m
    using vcf_move_loop_result [of "rec True" p opp ?ms st1 m]
      findAllRushFoursImproved_cells [of _ "board st1" p] b1 by auto
  show ?thesis
    unfolding vcf_body_def Let_def h prod.case
    using f0 f1 fw cw fl cl by simp
qed

lemma vcfSearch_spec:
  "frame st (snd (vcfSearch d p opp att st)) \<and>
   (\<forall>m. fst (vcfSearch d p opp att st) = Some m \<longrightarrow> candidate_cell (board st) m)"
proof (induction d arbitrary: st att)
  case 0
  show ?case unfolding vcfSearch.simps by (rule vcf_body_spec) (simp add: frame_refl)
next
  case (Suc d)
  show ?case unfolding vcfSearch.simps by (rule vcf_body_spec) (simp add: Suc)
qed

lemma searchVCFImproved_spec:
  "frame st (snd (searchVCFImproved p d st)) \<and>
   (\<forall>m. fst (searchVCFImproved p d st) = Some m \<longrightarrow> candidate_cell (board st) m)"
  unfolding searchVCFImproved_def Let_def by (rule vcfSearch_spec)

lemma vct_loop_spec:
  assumes "\<forall>c \<in> set ms. cell (board st) (fst (fst c)) (snd (fst c)) = 0"
  shows "snd (vct_loop p ms st) = st \<and>
         (\<forall>m. fst (vct_loop p ms st) = Some m \<longrightarrow> m \<in> fst ` set ms)"
  using assms
proof (induction ms arbitrary: st)
  case Nil
  show ?case by simp
next
  case (Cons c ms)
  obtain x y sc where c: "c = ((x, y), sc)" by (cases c) auto
  have e: "cell (board st) x y = 0" using Cons.prems unfolding c by simp
  have rest: "put x y 0 (put x y p st) = st"
    using set_cell_restore [OF e, of p] by (simp add: put_def)
  have ih: "snd (vct_loop p ms st) = st \<and>
         (\<forall>m. fst (vct_loop p ms st) = Some m \<longrightarrow> m \<in> fst ` set ms)"
    using Cons.IH [of st] Cons.prems by simp
  show ?case
    unfolding c vcf_move_loop.simps vct_loop.simps Let_def rest
    using ih by simp
qed

lemma searchVCTImproved_spec:
  "snd (searchVCTImproved p d st) = st \<and>
   (\<forall>m. fst (searchVCTImproved p d st) = Some m \<longrightarrow> candidate_cell (board st) m)"
proof -
  let ?ms = "take 8 (findAllThreatsImproved (board st) p)"
  have c: "candidate_cell (board st) (fst c)" if "c \<in> set ?ms" for c
    using that findAllThreatsImproved_cells [of c "board st" p] by (auto dest: in_set_takeD)
  then have "\<forall>c \<in> set ?ms. cell (board st) (fst (fst c)) (snd (fst c)) = 0"
    by (simp add: candidate_cell_def)
  from vct_loop_spec [OF this, of p] show ?thesis
    unfolding searchVCTImproved_def using c by auto
qed

section \<open>Move selection\<close>

lemma candidate_legal: "candidate_cell b m \<Longrightarrow> legal_or_fallback b m"
  by (simp add: candidate_cell_def legal_or_fallback_def)

lemma fallback_legal: "\<forall>c. \<not> candidate_cell b c \<Longrightarrow> legal_or_fallback b (7, 7)"
  by (auto simp add: legal_or_fallback_def in_bounds_def BOARD_SIZE_def)

lemma cascade_step:
  "(\<And>m. x = Some m \<Longrightarrow> P (m, s)) \<Longrightarrow> P rest \<Longrightarrow> P (if x \<noteq> None then (the x, s) else rest)"
  by (cases x) auto

lemma getHardMove_spec:
  "frame st (snd (getHardMove ai st)) \<and> legal_or_fallback (board st) (fst (getHardMove ai st))"
proof -
  obtain w1 st1 where h1: "findImmediateWin ai st = (w1, st1)"
    by (cases "findImmediateWin ai st")
  obtain w2 st2 where h2: "findImmediateWin (playerColor st) st1 = (w2, st2)"
    by (cases "findImmediateWin (playerColor st) st1")
  have f1: "frame st st1" using findImmediateWin_frame [of st ai] h1 by simp
  have f2: "frame st st2" using findImmediateWin_frame [of st1 "playerColor st"] h2 f1 frame_trans by fastforce
  have b1: "board st1 = board st" using f1 by (rule frame_fields)
  have b2: "board st2 = board st" using f2 by (rule frame_fields)
  have c1: "w1 = Some m \<Longrightarrow> legal_or_fallback (board st) m" for m
    using findImmediateWin_cell [of ai st m] h1 candidate_legal by simp
  have c2: "w2 = Some m \<Longrightarrow> legal_or_fallback (board st) m" for m
    using findImmediateWin_cell [of "playerColor st" st1 m] h2 b1 candidate_legal by simp
  note cells = findThreat_cell findDoubleRushFour_cell findFourThreeCombo_cell findDoubleThree_cell
  have last: "frame st (snd (hardMinimax ai st2)) \<and>
      legal_or_fallback (board st) (fst (hardMinimax ai st2))"
    using hardMinimax_spec [of st2 ai] f2 frame_trans b2 candidate_legal fallback_legal by metis
  show ?thesis
    unfolding getHardMove_def Let_def h1 h2 prod.case b2
    by (intro cascade_step [where P = "\<lambda>r. frame st (snd r) \<and> legal_or_fallback (board st) (fst r)"])
      (use f1 f2 c1 c2 last cells [THEN candidate_legal] in simp_all)
qed


lemma scored_cells_candidates:
  fixes f :: "int \<Rightarrow> int \<Rightarrow> rat"
  defines "l \<equiv> \<lambda>b. [((i, j), f i j). (i, j) \<leftarrow> all_cells, cell b i j = 0 \<and> hasNeighbor b i j 2]"
  shows "c \<in> set (l b) \<Longrightarrow> candidate_cell b (fst c)"
    and "l b = [] \<Longrightarrow> \<not> candidate_cell b m"
proof -
  have conv: "l b = map (\<lambda>c. (c, f (fst c) (snd c)))
      (filter (\<lambda>c. cell b (fst c) (snd c) = 0 \<and> hasNeighbor b (fst c) (snd c) 2) all_cells)"
    unfolding l_def by (rule scored_cells_conv)
  show "candidate_cell b (fst c)" if "c \<in> set (l b)"
    using that in_bounds_all_cells [of "fst (fst c)" "snd (fst c)"]
    unfolding conv candidate_cell_def by auto
  show "\<not> candidate_cell b m" if "l b = []"
  proof
    assume "candidate_cell b m"
    then have "m \<in> set (filter (\<lambda>c. cell b (fst c) (snd c) = 0 \<and> hasNeighbor b (fst c) (snd c) 2) all_cells)"
      using in_bounds_all_cells [of "fst m" "snd m"] unfolding candidate_cell_def by simp
    moreover have "filter (\<lambda>c. cell b (fst c) (snd c) = 0 \<and> hasNeighbor b (fst c) (snd c) 2) all_cells = []"
      using that unfolding conv by simp
    ultimately show False by (metis empty_iff list.set(1))
  qed
qed

lemma best_fold_result:
  assumes "bm = None \<longrightarrow> bs = MInf"
  shows "(xs = [] \<and> bm = None \<and>
          fst (foldl (\<lambda>(bestMove, bestScore) (m, score).
                 if xgt (Fin score) bestScore then (Some m, Fin score) else (bestMove, bestScore))
               (bm, bs) xs) = None) \<or>
         (\<exists>m. fst (foldl (\<lambda>(bestMove, bestScore) (m, score).
                 if xgt (Fin score) bestScore then (Some m, Fin score) else (bestMove, bestScore))
               (bm, bs) xs) = Some m \<and> (Some m = bm \<or> m \<in> fst ` set xs))"
  using assms
proof (induction xs arbitrary: bm bs)
  case Nil
  then show ?case by (cases bm) simp_all
next
  case (Cons c xs)
  obtain m0 s where c: "c = (m0, s)" by (cases c)
  let ?F = "\<lambda>(bestMove, bestScore) (m, score).
                 if xgt (Fin score) bestScore then (Some m, Fin score) else (bestMove, bestScore)"
  show ?case
  proof (cases "xgt (Fin s) bs")
    case True
    have "\<exists>m. fst (foldl ?F (Some m0, Fin s) xs) = Some m \<and> (Some m = Some m0 \<or> m \<in> fst ` set xs)"
      using Cons.IH [of "Some m0" "Fin s"] by simp
    then show ?thesis using True unfolding c by auto
  next
    case False
    then have "bs \<noteq> MInf" by (auto simp: xgt_def)
    then obtain m1 where bm: "bm = Some m1" using Cons.prems by (cases bm) auto
    have "\<exists>m. fst (foldl ?F (bm, bs) xs) = Some m \<and> (Some m = bm \<or> m \<in> fst ` set xs)"
      using Cons.IH [of bm bs] bm by simp
    then show ?thesis using False unfolding c by auto
  qed
qed

lemma random_index:
  fixes r :: rat
  assumes "0 \<le> r" "r < 1" "0 < n"
  shows "nat \<lfloor>r * of_nat n\<rfloor> < n"
proof -
  have "r * of_nat n < of_nat n" using assms by simp
  then have "\<lfloor>r * of_nat n\<rfloor> < int n" by (simp add: floor_less_iff)
  moreover have "0 \<le> \<lfloor>r * of_nat n\<rfloor>" using assms by simp
  ultimately show ?thesis by linarith
qed


lemma getMediumMove_spec:
  "frame st (snd (getMediumMove ai st)) \<and> legal_or_fallback (board st) (fst (getMediumMove ai st))"
proof -
  obtain w1 st1 where h1: "findImmediateWin ai st = (w1, st1)"
    by (cases "findImmediateWin ai st")
  obtain w2 st2 where h2: "findImmediateWin (playerColor st) st1 = (w2, st2)"
    by (cases "findImmediateWin (playerColor st) st1")
  have f1: "frame st st1" using findImmediateWin_frame [of st ai] h1 by simp
  have f2: "frame st st2" using findImmediateWin_frame [of st1 "playerColor st"] h2 f1 frame_trans by fastforce
  have b1: "board st1 = board st" using f1 by (rule frame_fields)
  have b2: "board st2 = board st" using f2 by (rule frame_fields)
  have c1: "w1 = Some m \<Longrightarrow> legal_or_fallback (board st) m" for m
    using findImmediateWin_cell [of ai st m] h1 candidate_legal by simp
  have c2: "w2 = Some m \<Longrightarrow> legal_or_fallback (board st) m" for m
    using findImmediateWin_cell [of "playerColor st" st1 m] h2 b1 candidate_legal by simp
  let ?f = "\<lambda>i j. the (evaluatePoint (board st) i j ai) * 1.2 +
                     the (evaluatePoint (board st) i j (playerColor st)) * 1.0"
  let ?scored = "[((i, j), ?f i j).
       (i, j) \<leftarrow> all_cells, cell (board st) i j = 0 \<and> hasNeighbor (board st) i j 2]"
  let ?F = "\<lambda>(bestMove, bestScore) (m, score).
                 if xgt (Fin score) bestScore then (Some m, Fin score) else (bestMove, bestScore)"
  obtain bm bs where fo: "foldl ?F (None, MInf) ?scored = (bm, bs)"
    by (cases "foldl ?F (None, MInf) ?scored")
  have "(?scored = [] \<and> bm = None) \<or> (\<exists>m. bm = Some m \<and> m \<in> fst ` set ?scored)"
    using best_fold_result [of None MInf ?scored] unfolding fo by auto
  then have "legal_or_fallback (board st) (if bm \<noteq> None then the bm else (7, 7))"
  proof (elim disjE conjE exE)
    assume "?scored = []" "bm = None"
    then show ?thesis
      using scored_cells_candidates(2) [where f = ?f and b = "board st"] fallback_legal by simp
  next
    fix m assume m: "bm = Some m" "m \<in> fst ` set ?scored"
    from m(2) obtain c where "m = fst c" "c \<in> set ?scored" by (rule imageE)
    then show ?thesis
      using scored_cells_candidates(1) [where c = c and f = ?f and b = "board st"] candidate_legal m(1) by simp
  qed
  moreover have "frame st (st2\<lparr>nodeCount := k\<rparr>)" for k
    using f2 frame_nodeCount frame_trans by blast
  ultimately have last: "frame st (snd (if bm \<noteq> None then the bm else (7, 7), st2\<lparr>nodeCount := k\<rparr>)) \<and>
      legal_or_fallback (board st) (fst (if bm \<noteq> None then the bm else (7, 7), st2\<lparr>nodeCount := k\<rparr>))" for k
    by simp
  show ?thesis
    unfolding getMediumMove_def Let_def h1 h2 prod.case b2 fo
    by (intro cascade_step [where P = "\<lambda>r. frame st (snd r) \<and> legal_or_fallback (board st) (fst r)"])
      (use f1 f2 c1 c2 last findThreat_cell [THEN candidate_legal] in simp_all)
qed

lemma getEasyMove_spec:
  assumes r: "0 \<le> r2" "r2 < 1"
  shows "frame st (snd (getEasyMove ai r1 r2 st)) \<and>
         legal_or_fallback (board st) (fst (getEasyMove ai r1 r2 st))"
proof -
  obtain w1 st1 where h1: "findImmediateWin ai st = (w1, st1)"
    by (cases "findImmediateWin ai st")
  obtain w2 st2 where h2: "findImmediateWin (playerColor st) st1 = (w2, st2)"
    by (cases "findImmediateWin (playerColor st) st1")
  have f1: "frame st st1" using findImmediateWin_frame [of st ai] h1 by simp
  have f2: "frame st st2" using findImmediateWin_frame [of st1 "playerColor st"] h2 f1 frame_trans by fastforce
  have b1: "board st1 = board st" using f1 by (rule frame_fields)
  have b2: "board st2 = board st" using f2 by (rule frame_fields)
  have c1: "w1 = Some m \<Longrightarrow> legal_or_fallback (board st) m" for m
    using findImmediateWin_cell [of ai st m] h1 candidate_legal by simp
  have c2: "w2 = Some m \<Longrightarrow> legal_or_fallback (board st) m" for m
    using findImmediateWin_cell [of "playerColor st" st1 m] h2 b1 candidate_legal by simp
  let ?f = "\<lambda>i j. the (evaluatePoint (board st) i j ai) +
                     the (evaluatePoint (board st) i j (playerColor st))"
  let ?unsorted = "[((i, j), ?f i j).
       (i, j) \<leftarrow> all_cells, cell (board st) i j = 0 \<and> hasNeighbor (board st) i j 2]"
  let ?cands = "sort_key (\<lambda>c. - snd c) ?unsorted"
  have nth: "legal_or_fallback (board st) (fst (?cands ! k))" if "k < length ?unsorted" for k
  proof -
    have "?cands ! k \<in> set ?cands" using that by (intro nth_mem) simp
    then have "?cands ! k \<in> set ?unsorted" by simp
    then show ?thesis
      using scored_cells_candidates(1) [where c = "?cands ! k" and f = ?f and b = "board st"]
        candidate_legal by blast
  qed
  have empty: "legal_or_fallback (board st) (7, 7)" if "length ?unsorted = 0"
    using that scored_cells_candidates(2) [where f = ?f and b = "board st"] fallback_legal by simp
  have idx: "nat \<lfloor>r2 * of_nat (min 3 (length ?unsorted))\<rfloor> < length ?unsorted"
    if "length ?unsorted \<noteq> 0"
  proof -
    have "0 < min 3 (length ?unsorted)" using that by simp
    from random_index [OF r this] show ?thesis by simp
  qed
  have fk: "frame st (st2\<lparr>nodeCount := k\<rparr>)" for k
    using f2 frame_nodeCount frame_trans by blast
  have last: "frame st (snd (if length ?unsorted = 0 then ((7, 7), st2\<lparr>nodeCount := k\<rparr>)
        else if r1 < 0.8 then (fst (?cands ! 0), st2\<lparr>nodeCount := k\<rparr>)
        else (fst (?cands ! nat \<lfloor>r2 * of_nat (min 3 (length ?cands))\<rfloor>), st2\<lparr>nodeCount := k\<rparr>))) \<and>
      legal_or_fallback (board st) (fst (if length ?unsorted = 0 then ((7, 7), st2\<lparr>nodeCount := k\<rparr>)
        else if r1 < 0.8 then (fst (?cands ! 0), st2\<lparr>nodeCount := k\<rparr>)
        else (fst (?cands ! nat \<lfloor>r2 * of_nat (min 3 (length ?cands))\<rfloor>), st2\<lparr>nodeCount := k\<rparr>)))" for k
    using fk empty nth [of 0] nth [OF idx] by (simp del: length_0_conv)
  show ?thesis
    unfolding getEasyMove_def Let_def h1 h2 prod.case b2
    by (intro cascade_step [where P = "\<lambda>r. frame st (snd r) \<and> legal_or_fallback (board st) (fst r)"])
      (use f1 f2 c1 c2 last findThreat_cell [THEN candidate_legal] in simp_all)
qed

lemma wf_state_cell:
  "wf_state st \<Longrightarrow> in_bounds i j \<Longrightarrow>
     (cell (board st) i j \<noteq> 0) = ((i, j) \<in> set (map (\<lambda>(x, y, p). (x, y)) (history st)))"
  unfolding wf_state_def using in_bounds_all_cells [of i j] by blast

lemma book_response_cell:
  assumes "book_response st = Some m"
  shows "in_bounds (fst m) (snd m) \<and> cell (board st) (fst m) (snd m) = 0"
proof -
  let ?P = "\<lambda>(condition, move).
      (\<exists>(x, y) \<in> set condition. fst (history st ! 0) = x \<and> fst (snd (history st ! 0)) = y) \<and>
      cell (board st) (fst move) (snd move) = 0"
  obtain r where r: "find ?P OPENING_BOOK_responses = Some r" "m = snd r"
    using assms unfolding book_response_def Let_def by auto
  then have "r \<in> set OPENING_BOOK_responses \<and> ?P r"
    unfolding find_Some_iff by (metis nth_mem)
  then show ?thesis
    unfolding r(2) OPENING_BOOK_responses_def
    by (auto simp: in_bounds_def BOARD_SIZE_def)
qed


lemma centre_empty_without_book:
  assumes wf: "wf_state st" and one: "length (history st) = 1" and nb: "book_response st = None"
  shows "cell (board st) 7 7 = 0"
proof (rule ccontr)
  assume occ: "cell (board st) 7 7 \<noteq> 0"
  obtain x y p where h: "history st = [(x, y, p)]"
    using one by (cases "history st") (auto simp: length_Suc_conv)
  have ib7: "in_bounds 7 7" and ib8: "in_bounds 8 8" by (simp_all add: in_bounds_def BOARD_SIZE_def)
  have "(7, 7) \<in> set (map (\<lambda>(x, y, p). (x, y)) (history st))"
    using wf_state_cell [OF wf ib7] occ by simp
  then have xy: "x = 7" "y = 7" unfolding h by simp_all
  have "(8, 8) \<notin> set (map (\<lambda>(x, y, p). (x, y)) (history st))" unfolding h xy by simp
  then have e8: "cell (board st) 8 8 = 0" using wf_state_cell [OF wf ib8] by simp
  have "book_response st = Some (8, 8)"
    unfolding book_response_def Let_def OPENING_BOOK_responses_def h xy using e8 by simp
  then show False using nb by simp
qed


lemma grid_comprehension:
  "c \<in> set [(f dx dy, g dx dy). dx \<leftarrow> xs, dy \<leftarrow> ys, P dx dy] \<Longrightarrow>
     \<exists>dx \<in> set xs. \<exists>dy \<in> set ys. P dx dy \<and> c = (f dx dy, g dx dy)"
  by auto

lemma findBestOpeningMove_spec:
  assumes "cell (board st) 7 7 = 0"
  shows "legal_or_fallback (board st) (findBestOpeningMove ai st)"
proof -
  let ?b = "board st"
  let ?cs = "[((7 + dx, 7 + dy),
              the (evaluatePoint ?b (7 + dx) (7 + dy) ai) +
              the (evaluatePoint ?b (7 + dx) (7 + dy) (playerColor st))).
               dx \<leftarrow> [-2..2], dy \<leftarrow> [-2..2],
               cell ?b (7 + dx) (7 + dy) = 0 \<and> hasNeighbor ?b (7 + dx) (7 + dy) 1]"
  have el: "in_bounds (fst (fst c)) (snd (fst c)) \<and> cell ?b (fst (fst c)) (snd (fst c)) = 0"
    if cin: "c \<in> set ?cs" for c
  proof -
    obtain dx dy where d: "dx \<in> set [-2..2]" "dy \<in> set [-2..2]"
      "cell ?b (7 + dx) (7 + dy) = 0" "c = ((7 + dx, 7 + dy),
              the (evaluatePoint ?b (7 + dx) (7 + dy) ai) +
              the (evaluatePoint ?b (7 + dx) (7 + dy) (playerColor st)))"
      using grid_comprehension [OF cin] by blast
    have "in_bounds (7 + dx) (7 + dy)"
      using d(1,2) by (auto simp add: in_bounds_def BOARD_SIZE_def)
    then show ?thesis using d(3) unfolding d(4) by simp
  qed
  define cs where "cs = ?cs"
  have fb: "findBestOpeningMove ai st =
      (if length cs = 0 then (7, 7) else fst (sort_key (\<lambda>c. - snd c) cs ! 0))"
    unfolding findBestOpeningMove_def Let_def cs_def ..
  have el': "in_bounds (fst (fst c)) (snd (fst c)) \<and> cell ?b (fst (fst c)) (snd (fst c)) = 0"
    if "c \<in> set cs" for c
    using el that unfolding cs_def by blast
  show ?thesis
  proof (cases "length cs = 0")
    case True
    then show ?thesis
      unfolding fb using assms by (simp add: legal_or_fallback_def in_bounds_def BOARD_SIZE_def)
  next
    case False
    then have "sort_key (\<lambda>c. - snd c) cs ! 0 \<in> set (sort_key (\<lambda>c. - snd c) cs)"
      by (intro nth_mem) simp
    then have "sort_key (\<lambda>c. - snd c) cs ! 0 \<in> set cs" unfolding set_sort .
    from el' [OF this] have "legal_or_fallback ?b (fst (sort_key (\<lambda>c. - snd c) cs ! 0))"
      unfolding legal_or_fallback_def by simp
    then show ?thesis unfolding fb using False by simp
  qed
qed


lemma getHellMove_search_spec:
  "frame st (snd (getHellMove ai st)) \<and>
   (2 \<le> length (history st) \<longrightarrow> legal_or_fallback (board st) (fst (getHellMove ai st)))"
proof (cases "length (history st) = 0 \<or> length (history st) = 1")
  case True
  then show ?thesis
    unfolding getHellMove_def Let_def by (auto simp: frame_refl)
next
  case False
  obtain w1 st1 where h1: "findImmediateWin ai st = (w1, st1)"
    by (cases "findImmediateWin ai st")
  obtain w2 st2 where h2: "findImmediateWin (playerColor st) st1 = (w2, st2)"
    by (cases "findImmediateWin (playerColor st) st1")
  obtain v3 st3 where h3: "searchVCFImproved ai HELL_VCF_DEPTH st2 = (v3, st3)"
    by (cases "searchVCFImproved ai HELL_VCF_DEPTH st2")
  obtain v4 st4 where h4: "searchVCTImproved ai HELL_VCT_DEPTH st3 = (v4, st4)"
    by (cases "searchVCTImproved ai HELL_VCT_DEPTH st3")
  have f1: "frame st st1" using findImmediateWin_frame [of st ai] h1 by simp
  have f2: "frame st st2" using findImmediateWin_frame [of st1 "playerColor st"] h2 f1 frame_trans by fastforce
  have f3: "frame st st3" using searchVCFImproved_spec [of st2 ai HELL_VCF_DEPTH] h3 f2 frame_trans by fastforce
  have s4: "st4 = st3" using searchVCTImproved_spec [of ai HELL_VCT_DEPTH st3] h4 by simp
  have b1: "board st1 = board st" using f1 by (rule frame_fields)
  have b2: "board st2 = board st" using f2 by (rule frame_fields)
  have b3: "board st3 = board st" using f3 by (rule frame_fields)
  have c1: "w1 = Some m \<Longrightarrow> legal_or_fallback (board st) m" for m
    using findImmediateWin_cell [of ai st m] h1 candidate_legal by simp
  have c2: "w2 = Some m \<Longrightarrow> legal_or_fallback (board st) m" for m
    using findImmediateWin_cell [of "playerColor st" st1 m] h2 b1 candidate_legal by simp
  have c3: "v3 = Some m \<Longrightarrow> legal_or_fallback (board st) m" for m
    using searchVCFImproved_spec [of st2 ai HELL_VCF_DEPTH] h3 b2 candidate_legal by simp
  have c4: "v4 = Some m \<Longrightarrow> legal_or_fallback (board st) m" for m
    using searchVCTImproved_spec [of ai HELL_VCT_DEPTH st3] h4 b3 candidate_legal by simp
  note cells = findThreat_cell findDoubleRushFour_cell findFourThreeCombo_cell findDoubleThree_cell
  have last: "frame st (snd (hellMinimaxImproved ai st3)) \<and>
      legal_or_fallback (board st) (fst (hellMinimaxImproved ai st3))"
    using hellMinimaxImproved_spec [of st3 ai] f3 frame_trans b3 candidate_legal fallback_legal by metis
  have n0: "(length (history st) = 0) = False" and n1: "(length (history st) = 1) = False"
    using False by simp_all
  have "frame st (snd (getHellMove ai st)) \<and> legal_or_fallback (board st) (fst (getHellMove ai st))"
    unfolding getHellMove_def Let_def h1 h2 prod.case b2 h3 h4 s4 n0 n1 if_False
    by (intro cascade_step [where P = "\<lambda>r. frame st (snd r) \<and> legal_or_fallback (board st) (fst r)"])
      (use f1 f2 f3 c1 c2 c3 c4 last cells [THEN candidate_legal] in simp_all)
  then show ?thesis by simp
qed

lemma getHellMove_spec:
  assumes wf: "wf_state st"
  shows "frame st (snd (getHellMove ai st)) \<and> legal_or_fallback (board st) (fst (getHellMove ai st))"
proof -
  consider "length (history st) = 0" | "length (history st) = 1" | "2 \<le> length (history st)"
    by linarith
  then show ?thesis
  proof cases
    case 1
    have ib: "in_bounds 7 7" by (simp add: in_bounds_def BOARD_SIZE_def)
    have "cell (board st) 7 7 = 0" using wf_state_cell [OF wf ib] 1 by simp
    then have "legal_or_fallback (board st) (7, 7)" using ib by (simp add: legal_or_fallback_def)
    then show ?thesis
      using 1 unfolding getHellMove_def Let_def OPENING_BOOK_first_def by (simp add: frame_refl)
  next
    case 2
    have g: "getHellMove ai st =
        (if book_response st \<noteq> None then (the (book_response st), st)
         else (findBestOpeningMove ai st, st))"
      using 2 unfolding getHellMove_def Let_def by simp
    show ?thesis
    proof (cases "book_response st")
      case None
      from centre_empty_without_book [OF wf 2 None]
      have "legal_or_fallback (board st) (findBestOpeningMove ai st)"
        by (rule findBestOpeningMove_spec)
      then show ?thesis unfolding g using None by (simp add: frame_refl)
    next
      case (Some m)
      from book_response_cell [OF Some] have "legal_or_fallback (board st) m"
        by (simp add: legal_or_fallback_def)
      then show ?thesis unfolding g using Some by (simp add: frame_refl)
    qed
  next
    case 3
    then show ?thesis using getHellMove_search_spec [of st ai] by simp
  qed
qed

lemma getAIMove_spec:
  assumes "wf_state st" "0 \<le> r2" "r2 < 1"
  shows "frame st (snd (getAIMove r1 r2 st)) \<and> legal_or_fallback (board st) (fst (getAIMove r1 r2 st))"
  unfolding getAIMove_def Let_def
  using getEasyMove_spec [OF assms(2,3)] getMediumMove_spec getHardMove_spec
    getHellMove_spec [OF assms(1)]
  by simp

section \<open>Immediate wins are taken\<close>

lemma direction_step_nonzero:
  assumes "(dx, dy) \<in> set directions" "t \<noteq> 0"
  shows "(x + dx * t, y + dy * t) \<noteq> (x, y)" "\<bar>dx * t\<bar> \<le> \<bar>t\<bar>" "\<bar>dy * t\<bar> \<le> \<bar>t\<bar>"
  using assms by (auto simp: directions_def)

lemma direction_step_inj:
  assumes "(dx, dy) \<in> set directions" "t1 \<noteq> t2"
  shows "(x + dx * t1, y + dy * t1) \<noteq> (x + dx * t2, y + dy * t2)"
  using assms by (auto simp: directions_def)

lemma five_in_row_neighbours:
  assumes "five_in_row b p x y"
  shows "\<exists>dx dy t1 t2. (dx, dy) \<in> set directions \<and> t1 \<noteq> 0 \<and> t2 \<noteq> 0 \<and> t1 \<noteq> t2 \<and>
           \<bar>t1\<bar> \<le> 2 \<and> \<bar>t2\<bar> \<le> 2 \<and>
           owned b p (x + dx * t1) (y + dy * t1) \<and> owned b p (x + dx * t2) (y + dy * t2)"
proof -
  obtain dx dy k where d: "(dx, dy) \<in> set directions" and k: "0 \<le> k" "k \<le> 4"
    and all: "\<forall>i \<in> set [0..4]. owned b p (x + dx * (i - k)) (y + dy * (i - k))"
    using assms unfolding five_in_row_def by auto
  show ?thesis
  proof (cases "k \<le> 2")
    case True
    have "owned b p (x + dx * ((k + 1) - k)) (y + dy * ((k + 1) - k))"
      using all k True by (intro bspec [OF all]) simp
    moreover have "owned b p (x + dx * ((k + 2) - k)) (y + dy * ((k + 2) - k))"
      using all k True by (intro bspec [OF all]) simp
    ultimately have "owned b p (x + dx * 1) (y + dy * 1) \<and> owned b p (x + dx * 2) (y + dy * 2)"
      by simp
    then show ?thesis using d by (intro exI [of _ dx] exI [of _ dy] exI [of _ 1] exI [of _ 2]) simp
  next
    case False
    have "owned b p (x + dx * ((k - 1) - k)) (y + dy * ((k - 1) - k))"
      using all k False by (intro bspec [OF all]) simp
    moreover have "owned b p (x + dx * ((k - 2) - k)) (y + dy * ((k - 2) - k))"
      using all k False by (intro bspec [OF all]) simp
    ultimately have "owned b p (x + dx * (- 1)) (y + dy * (- 1)) \<and> owned b p (x + dx * (- 2)) (y + dy * (- 2))"
      by simp
    then show ?thesis using d by (intro exI [of _ dx] exI [of _ dy] exI [of _ "- 1"] exI [of _ "- 2"]) simp
  qed
qed

lemma owned_after_placing:
  assumes "wf_board b" "in_bounds x y" "(x', y') \<noteq> (x, y)" "owned (set_cell b x y p) p x' y'"
  shows "owned b p x' y'"
  using assms cell_set_cell_other [of b x y x' y' p] by (auto simp: owned_def)

lemma hasNeighbor_I:
  assumes "in_bounds (x + i) (y + j)" "cell b (x + i) (y + j) \<noteq> 0" "\<bar>i\<bar> \<le> 2" "\<bar>j\<bar> \<le> 2"
    "\<not> (i = 0 \<and> j = 0)"
  shows "hasNeighbor b x y 2"
  unfolding hasNeighbor_def Let_def
  using assms by (intro bexI [of _ i] bexI [of _ j]) (auto simp: in_bounds_def)

lemma winning_cell_hasNeighbor:
  assumes wf: "wf_board b" and p: "p \<noteq> 0" and w: "winning_cell b p c"
  shows "hasNeighbor b (fst c) (snd c) 2"
proof -
  obtain x y where c: "c = (x, y)" by (cases c)
  have ib: "in_bounds x y" and five: "five_in_row (set_cell b x y p) p x y"
    using w unfolding c winning_cell_def by simp_all
  obtain dx dy t1 t2 where d: "(dx, dy) \<in> set directions" "t1 \<noteq> 0" "\<bar>t1\<bar> \<le> 2"
    and o: "owned (set_cell b x y p) p (x + dx * t1) (y + dy * t1)"
    using five_in_row_neighbours [OF five] by blast
  have "owned b p (x + dx * t1) (y + dy * t1)"
    using owned_after_placing [OF wf ib direction_step_nonzero(1) [OF d(1,2)] o] .
  then have "in_bounds (x + dx * t1) (y + dy * t1)" "cell b (x + dx * t1) (y + dy * t1) \<noteq> 0"
    using p by (simp_all add: owned_def)
  moreover have "\<not> (dx * t1 = 0 \<and> dy * t1 = 0)"
    using direction_step_nonzero(1) [OF d(1,2), of x y] by auto
  ultimately have "hasNeighbor b x y 2"
    using direction_step_nonzero(2,3) [OF d(1,2)] d(3)
    by (intro hasNeighbor_I [of x "dx * t1" y "dy * t1"]) simp_all
  then show ?thesis unfolding c by simp
qed

lemma immediate_win_iff:
  assumes wf: "wf_board b" and p: "p \<noteq> 0" and c: "c \<in> set all_cells"
  shows "immediate_win_at b p c = winning_cell b p c"
proof -
  obtain x y where xy: "c = (x, y)" by (cases c)
  have ib: "in_bounds x y" using c unfolding xy by (simp add: in_bounds_all_cells)
  let ?b' = "set_cell b x y p"
  have "owned ?b' p x y" using cell_set_cell_same [OF wf ib] ib by (simp add: owned_def)
  then have "checkWinWithoutState ?b' x y p = five_in_row ?b' p x y"
    using checkWin_fst [of x y p "start_state\<lparr>board := ?b'\<rparr>"]
      checkWin_four_around [of x y p "start_state\<lparr>board := ?b'\<rparr>"]
      five_in_row_four_around [of ?b' p x y] by simp
  then show ?thesis
    using winning_cell_hasNeighbor [OF wf p, of c] ib
    unfolding xy immediate_win_at_def winning_cell_def by auto
qed


lemma findImmediateWin_finds:
  assumes wf: "wf_board (board st)" and p: "p \<noteq> 0" and ex: "\<exists>c. winning_cell (board st) p c"
  shows "\<exists>w. fst (findImmediateWin p st) = Some w \<and> winning_cell (board st) p w"
proof -
  obtain c where c: "winning_cell (board st) p c" using ex by blast
  then have cin: "c \<in> set all_cells"
    using in_bounds_all_cells [of "fst c" "snd c"] by (simp add: winning_cell_def)
  then have "immediate_win_at (board st) p c" using immediate_win_iff [OF wf p] c by simp
  then have "find (immediate_win_at (board st) p) all_cells \<noteq> None"
    using cin unfolding find_None_iff by blast
  then obtain w where w: "find (immediate_win_at (board st) p) all_cells = Some w" by blast
  then have "w \<in> set all_cells \<and> immediate_win_at (board st) p w"
    unfolding find_Some_iff by (metis nth_mem)
  then have "winning_cell (board st) p w" using immediate_win_iff [OF wf p, of w] by blast
  then show ?thesis using w unfolding findImmediateWin_fst by blast
qed

lemma first_step_Easy:
  "fst (findImmediateWin ai st) = Some w \<Longrightarrow> fst (getEasyMove ai r1 r2 st) = w"
  unfolding getEasyMove_def Let_def by (cases "findImmediateWin ai st") simp

lemma first_step_Medium:
  "fst (findImmediateWin ai st) = Some w \<Longrightarrow> fst (getMediumMove ai st) = w"
  unfolding getMediumMove_def Let_def by (cases "findImmediateWin ai st") simp

lemma first_step_Hard:
  "fst (findImmediateWin ai st) = Some w \<Longrightarrow> fst (getHardMove ai st) = w"
  unfolding getHardMove_def Let_def by (cases "findImmediateWin ai st") simp

lemma first_step_Hell:
  assumes "2 \<le> length (history st)" "fst (findImmediateWin ai st) = Some w"
  shows "fst (getHellMove ai st) = w"
proof -
  have n0: "(length (history st) = 0) = False" and n1: "(length (history st) = 1) = False"
    using assms(1) by auto
  show ?thesis
    unfolding getHellMove_def Let_def n0 n1 if_False
    using assms(2) by (cases "findImmediateWin ai st") simp
qed

lemma two_stones_two_moves:
  assumes wf: "wf_state st" and p: "p \<noteq> 0" and w: "winning_cell (board st) p c"
  shows "2 \<le> length (history st)"
proof -
  obtain x y where c: "c = (x, y)" by (cases c)
  have wb: "wf_board (board st)" using wf by (simp add: wf_state_def)
  have ib: "in_bounds x y" and five: "five_in_row (set_cell (board st) x y p) p x y"
    using w unfolding c winning_cell_def by simp_all
  obtain dx dy t1 t2 where d: "(dx, dy) \<in> set directions" "t1 \<noteq> 0" "t2 \<noteq> 0" "t1 \<noteq> t2"
    and o1: "owned (set_cell (board st) x y p) p (x + dx * t1) (y + dy * t1)"
    and o2: "owned (set_cell (board st) x y p) p (x + dx * t2) (y + dy * t2)"
    using five_in_row_neighbours [OF five] by blast
  let ?c1 = "(x + dx * t1, y + dy * t1)" and ?c2 = "(x + dx * t2, y + dy * t2)"
  let ?ps = "map (\<lambda>(x, y, p). (x, y)) (history st)"
  have "owned (board st) p (x + dx * t1) (y + dy * t1)"
    using owned_after_placing [OF wb ib direction_step_nonzero(1) [OF d(1,2)] o1] .
  then have m1: "?c1 \<in> set ?ps"
    using wf_state_cell [OF wf, of "x + dx * t1" "y + dy * t1"] p by (simp add: owned_def)
  have "owned (board st) p (x + dx * t2) (y + dy * t2)"
    using owned_after_placing [OF wb ib direction_step_nonzero(1) [OF d(1,3)] o2] .
  then have m2: "?c2 \<in> set ?ps"
    using wf_state_cell [OF wf, of "x + dx * t2" "y + dy * t2"] p by (simp add: owned_def)
  have ne: "?c1 \<noteq> ?c2" by (rule direction_step_inj [OF d(1,4)])
  have "card {?c1, ?c2} \<le> card (set ?ps)"
    using m1 m2 by (intro card_mono) simp_all
  moreover have "card {?c1, ?c2} = 2" using ne by simp
  moreover have "card (set ?ps) \<le> length ?ps" by (rule card_length)
  ultimately show ?thesis by simp
qed

lemma getAIPlayer_nonzero: "getAIPlayer st \<noteq> 0"
  by (simp add: getAIPlayer_def)

text \<open>
  C1.  In a well-formed state, whatever the difficulty (a name other than the four known
  ones selects the Easy policy, as in the source) and whatever the random draws, if the
  computer has a winning cell then the move returned is a winning cell of the computer.
\<close>

theorem getAIMove_takes_immediate_win:
  assumes wf: "wf_state st" and ex: "\<exists>c. winning_cell (board st) (getAIPlayer st) c"
  shows "winning_cell (board st) (getAIPlayer st) (fst (getAIMove r1 r2 st))"
proof -
  let ?ai = "getAIPlayer st"
  have wb: "wf_board (board st)" using wf by (simp add: wf_state_def)
  obtain w where w: "fst (findImmediateWin ?ai st) = Some w" "winning_cell (board st) ?ai w"
    using findImmediateWin_finds [OF wb getAIPlayer_nonzero ex] by blast
  have len: "2 \<le> length (history st)"
    using ex two_stones_two_moves [OF wf getAIPlayer_nonzero] by blast
  have "fst (getAIMove r1 r2 st) = w"
    unfolding getAIMove_def Let_def
    using first_step_Easy [OF w(1)] first_step_Medium [OF w(1)] first_step_Hard [OF w(1)]
      first_step_Hell [OF len w(1)]
    by simp
  then show ?thesis using w(2) by simp
qed

theorem getAIMove_takes_immediate_win_witness:
  "wf_state four_row_state \<and>
   (\<exists>c. winning_cell (board four_row_state) (getAIPlayer four_row_state) c) \<and>
   winning_cell (board four_row_state) (getAIPlayer four_row_state)
     (fst (getAIMove 0 0 four_row_state))"
proof -
  have wf: "wf_state four_row_state" by code_simp
  have "winning_cell (board four_row_state) (getAIPlayer four_row_state) (4, 5)" by code_simp
  then have ex: "\<exists>c. winning_cell (board four_row_state) (getAIPlayer four_row_state) c" ..
  from getAIMove_takes_immediate_win [OF wf ex, of 0 0] wf ex show ?thesis by blast
qed

section \<open>The searches restore the board\<close>

text \<open>
  C3.  Each search entry point returns a state whose board equals the board it was called
  on: \<^verbatim>\<open>minimax\<close> and \<^verbatim>\<open>minimaxHellImproved\<close> at every depth, window and node kind, the root
  searches \<^verbatim>\<open>hardMinimax\<close> and \<^verbatim>\<open>hellMinimaxImproved\<close>, and the forcing searches
  \<^verbatim>\<open>searchVCFImproved\<close> and \<^verbatim>\<open>searchVCTImproved\<close>.  The loops of the model stop at a pruning
  break and return from inside a branch exactly where the source does, after the stone has
  been taken back.
\<close>

theorem searches_restore_board:
  "board (snd (minimax d al be isMax ai st)) = board st \<and>
   board (snd (hardMinimax ai st)) = board st \<and>
   board (snd (minimaxHellImproved d' al' be' isMax' ai st)) = board st \<and>
   board (snd (hellMinimaxImproved ai st)) = board st \<and>
   board (snd (searchVCFImproved p n st)) = board st \<and>
   board (snd (searchVCTImproved p n' st)) = board st"
proof -
  have "frame st (snd (hardMinimax ai st))" using hardMinimax_spec by blast
  moreover have "frame st (snd (hellMinimaxImproved ai st))" using hellMinimaxImproved_spec by blast
  moreover have "frame st (snd (searchVCFImproved p n st))" using searchVCFImproved_spec by blast
  moreover have "snd (searchVCTImproved p n' st) = st" using searchVCTImproved_spec by blast
  ultimately show ?thesis
    using minimax_frame [of st d al be isMax ai] minimaxHellImproved_frame [of st d' al' be' isMax' ai]
    by (simp add: frame_fields(1))
qed

theorem searches_restore_board_witness:
  "board (snd (minimax 3 MInf PInf False 2 min_node_state)) = board min_node_state \<and>
   board (snd (hardMinimax 2 min_node_state)) = board min_node_state \<and>
   board (snd (minimaxHellImproved 5 MInf PInf False 2 min_node_state)) = board min_node_state \<and>
   board (snd (hellMinimaxImproved 2 min_node_state)) = board min_node_state \<and>
   board (snd (searchVCFImproved 2 12 min_node_state)) = board min_node_state \<and>
   board (snd (searchVCTImproved 2 8 min_node_state)) = board min_node_state"
  by (rule searches_restore_board)

section \<open>The move returned is legal\<close>

text \<open>
  C9.  In a well-formed state, with the random draw in the range of \<^verbatim>\<open>Math.random()\<close>, the
  move that \<^verbatim>\<open>getAIMove\<close> returns lies on the board and refers to an empty cell, unless it
  is the centre (7, 7) returned when no empty cell has a stone within distance 2.  The
  function always returns a move, and the state it leaves differs from the one it was
  called on at most in the winning line and the node counter.
\<close>

theorem getAIMove_empty_cell_or_centre:
  assumes "wf_state st" and "0 \<le> r2" and "r2 < 1"
  shows "let m = fst (getAIMove r1 r2 st) in
           in_bounds (fst m) (snd m) \<and>
           (cell (board st) (fst m) (snd m) = 0 \<or>
            (m = (7, 7) \<and> (\<forall>c. \<not> candidate_cell (board st) c))) \<and>
           board (snd (getAIMove r1 r2 st)) = board st"
proof -
  have l: "legal_or_fallback (board st) (fst (getAIMove r1 r2 st))"
    and f: "frame st (snd (getAIMove r1 r2 st))"
    using getAIMove_spec [OF assms] by simp_all
  have "\<not> candidate_cell (board st) c" if "\<forall>c \<in> set all_cells. \<not> candidate_cell (board st) c" for c
    using that in_bounds_all_cells [of "fst c" "snd c"] by (cases c) (auto simp: candidate_cell_def)
  then show ?thesis
    using l frame_fields(1) [OF f] unfolding legal_or_fallback_def Let_def by blast
qed

theorem getAIMove_empty_cell_or_centre_witness:
  "wf_state opening_state \<and>
   (let m = fst (getAIMove 0 0 opening_state) in
      in_bounds (fst m) (snd m) \<and>
      (cell (board opening_state) (fst m) (snd m) = 0 \<or>
       (m = (7, 7) \<and> (\<forall>c. \<not> candidate_cell (board opening_state) c))) \<and>
      board (snd (getAIMove 0 0 opening_state)) = board opening_state)"
proof -
  have wf: "wf_state opening_state" by code_simp
  from getAIMove_empty_cell_or_centre [OF wf, of 0 0] wf show ?thesis by simp
qed

section \<open>The last cell\<close>

lemma checkWin_placed_stone:
  assumes "wf_board b" "in_bounds x y"
  shows "checkWinWithoutState (set_cell b x y p) x y p = five_in_row (set_cell b x y p) p x y"
proof -
  let ?b' = "set_cell b x y p"
  have "owned ?b' p x y" using cell_set_cell_same [OF assms] assms(2) by (simp add: owned_def)
  then show ?thesis
    using checkWin_fst [of x y p "start_state\<lparr>board := ?b'\<rparr>"]
      checkWin_four_around [of x y p "start_state\<lparr>board := ?b'\<rparr>"]
      five_in_row_four_around [of ?b' p x y] by simp
qed

text \<open>
  C10.  When \<^verbatim>\<open>placePiece\<close> is called on an empty cell of a running game (by the computer,
  or by a player who may move), the history holds 224 moves, and the stone does not complete
  five in a row, the call returns \<^verbatim>\<open>true\<close>, the stone and the move are recorded, the game is
  over, the result shown is 0 (a draw), and the turn is not passed: the player to move and
  the thinking flag are as before.
\<close>

theorem placePiece_last_cell_is_draw:
  assumes "wf_board (board st)" and "in_bounds x y"
    and "\<not> gameOver st" and "cell (board st) x y = 0" and "isAI \<or> canPlayerMove st"
    and "length (history st) = 224"
    and "\<not> five_in_row (set_cell (board st) x y (currentPlayer st)) (currentPlayer st) x y"
  shows "fst (placePiece x y isAI st) = True \<and>
         gameOver (snd (placePiece x y isAI st)) \<and>
         shownResult (snd (placePiece x y isAI st)) = Some 0 \<and>
         currentPlayer (snd (placePiece x y isAI st)) = currentPlayer st \<and>
         isAiThinking (snd (placePiece x y isAI st)) = isAiThinking st \<and>
         board (snd (placePiece x y isAI st)) = set_cell (board st) x y (currentPlayer st) \<and>
         history (snd (placePiece x y isAI st)) = history st @ [(x, y, currentPlayer st)]"
proof -
  let ?p = "currentPlayer st"
  let ?st2 = "(put x y ?p st)\<lparr>history := history st @ [(x, y, ?p)]\<rparr>"
  obtain won st3 where cw: "checkWin x y ?p ?st2 = (won, st3)"
    by (cases "checkWin x y ?p ?st2")
  have "won = checkWinWithoutState (board ?st2) x y ?p"
    using checkWin_fst [of x y ?p ?st2] cw by simp
  then have nw: "\<not> won"
    using assms(7) checkWin_placed_stone [OF assms(1,2), of ?p] by (simp add: put_def)
  have fr: "st3 = ?st2\<lparr>winningLine := winningLine st3\<rparr>"
    using checkWin_frame [of x y ?p ?st2] cw by simp
  have h: "history st3 = history st @ [(x, y, ?p)]" by (subst fr) (simp add: put_def)
  have c: "currentPlayer st3 = ?p" by (subst fr) (simp add: put_def)
  have t: "isAiThinking st3 = isAiThinking st" by (subst fr) (simp add: put_def)
  have b: "board st3 = set_cell (board st) x y ?p" by (subst fr) (simp add: put_def)
  have pp: "placePiece x y isAI st = (True, st3\<lparr>gameOver := True, shownResult := Some 0\<rparr>)"
    using assms(2-6) nw cw h
    by (simp add: placePiece_def Let_def put_def in_bounds_def BOARD_SIZE_def)
  show ?thesis unfolding pp using h c t b by simp
qed

theorem placePiece_last_cell_is_draw_witness:
  "wf_board (board draw_state) \<and> in_bounds 14 14 \<and> \<not> gameOver draw_state \<and>
   cell (board draw_state) 14 14 = 0 \<and> canPlayerMove draw_state \<and>
   length (history draw_state) = 224 \<and>
   \<not> five_in_row (set_cell (board draw_state) 14 14 (currentPlayer draw_state))
       (currentPlayer draw_state) 14 14 \<and>
   fst (placePiece 14 14 False draw_state) = True \<and>
   gameOver (snd (placePiece 14 14 False draw_state)) \<and>
   shownResult (snd (placePiece 14 14 False draw_state)) = Some 0 \<and>
   currentPlayer (snd (placePiece 14 14 False draw_state)) = currentPlayer draw_state"
proof -
  have a1: "wf_board (board draw_state)" by code_simp
  have a2: "in_bounds 14 14" by code_simp
  have a3: "\<not> gameOver draw_state" by code_simp
  have a4: "cell (board draw_state) 14 14 = 0" by code_simp
  have a5: "canPlayerMove draw_state" by code_simp
  have a6: "length (history draw_state) = 224" by code_simp
  have a7: "\<not> five_in_row (set_cell (board draw_state) 14 14 (currentPlayer draw_state))
       (currentPlayer draw_state) 14 14" by code_simp
  from placePiece_last_cell_is_draw [OF a1 a2 a3 a4 disjI2 [OF a5] a6 a7]
  show ?thesis using a1 a2 a3 a4 a5 a6 a7 by blast
qed

section \<open>The second move of the top tier\<close>

lemma book_response_no_key:
  assumes "history st = [(x, y, p)]"
    and "(x, y) \<notin> {(7, 7), (6, 7), (8, 7), (7, 6), (7, 8)}"
  shows "book_response st = None"
  using assms unfolding book_response_def Let_def OPENING_BOOK_responses_def by auto

lemma findBestOpeningMove_far_stone:
  assumes wf: "wf_state st" and h: "history st = [(3, 3, p)]"
  shows "findBestOpeningMove ai st = (7, 7)"
proof -
  let ?b = "board st"
  have occ: "cell ?b i j = 0" if "in_bounds i j" "(i, j) \<noteq> (3, 3)" for i j
    using wf_state_cell [OF wf that(1)] that(2) unfolding h by auto
  have nn: "\<not> hasNeighbor ?b (7 + dx) (7 + dy) 1"
    if d: "dx \<in> set [-2..2]" "dy \<in> set [-2..2]" for dx dy
  proof -
    have "cell ?b (7 + dx + i) (7 + dy + j) = 0"
      if "i \<in> set [-1..1]" "j \<in> set [-1..1]" for i j
      using that d by (intro occ) (auto simp: in_bounds_def BOARD_SIZE_def)
    then show ?thesis unfolding hasNeighbor_def Let_def by auto
  qed
  define sc where "sc = (\<lambda>dx dy. the (evaluatePoint ?b (7 + dx) (7 + dy) ai) +
              the (evaluatePoint ?b (7 + dx) (7 + dy) (playerColor st)))"
  define cs where "cs = [((7 + dx, 7 + dy), sc dx dy).
               dx \<leftarrow> [-2..2], dy \<leftarrow> [-2..2],
               cell ?b (7 + dx) (7 + dy) = 0 \<and> hasNeighbor ?b (7 + dx) (7 + dy) 1]"
  have "c \<notin> set cs" for c
  proof
    assume "c \<in> set cs"
    then have "c \<in> set [((7 + dx, 7 + dy), sc dx dy).
               dx \<leftarrow> [-2..2], dy \<leftarrow> [-2..2],
               cell ?b (7 + dx) (7 + dy) = 0 \<and> hasNeighbor ?b (7 + dx) (7 + dy) 1]"
      unfolding cs_def .
    from grid_comprehension [OF this]
    obtain dx dy where "dx \<in> set [-2..2]" "dy \<in> set [-2..2]"
        "hasNeighbor ?b (7 + dx) (7 + dy) 1"
      by blast
    then show False using nn by blast
  qed
  then have e: "cs = []" by (cases cs) auto
  have "findBestOpeningMove ai st =
      (if length cs = 0 then (7, 7) else fst (sort_key (\<lambda>c. - snd c) cs ! 0))"
    unfolding findBestOpeningMove_def Let_def cs_def sc_def ..
  then show ?thesis unfolding e by simp
qed

text \<open>
  C6, as claimed: the move returned after the first move (3, 3) would be the move of an entry
  of \<^verbatim>\<open>OPENING_BOOK.responses\<close> whose condition lists (3, 3).  No entry does: the lookup
  finds nothing, and the move returned is the one of \<^verbatim>\<open>findBestOpeningMove\<close>.
\<close>

theorem opening_book_has_no_answer_to_3_3:
  "\<not> (\<exists>(condition, move) \<in> set OPENING_BOOK_responses.
        (3, 3) \<in> set condition \<and>
        fst (getHellMove (getAIPlayer opening_state) opening_state) = move) \<and>
   book_response opening_state = None \<and>
   getHellMove (getAIPlayer opening_state) opening_state =
     (findBestOpeningMove (getAIPlayer opening_state) opening_state, opening_state)"
proof -
  have h: "history opening_state = [(3, 3, 1)]" by (simp add: opening_state_def)
  have n: "book_response opening_state = None"
    by (rule book_response_no_key [OF h]) simp
  have "getHellMove (getAIPlayer opening_state) opening_state =
     (findBestOpeningMove (getAIPlayer opening_state) opening_state, opening_state)"
    unfolding getHellMove_def Let_def h n by simp
  then show ?thesis using n by (simp add: OPENING_BOOK_responses_def)
qed

text \<open>
  C6, amended.  In a well-formed state of a game against the top tier whose history is the
  single move (3, 3), so that the board is otherwise empty, the lookup in the opening
  responses finds no entry (the table is keyed by (7, 7), (6, 7), (8, 7), (7, 6) and (7, 8)
  only); the move returned is the one of \<^verbatim>\<open>findBestOpeningMove\<close>, which is the centre
  (7, 7) because the stone at (3, 3) is adjacent to no cell of the 5 by 5 region around the
  centre.  No search runs: the state, with its node counter, is returned as it was.
\<close>

theorem getHellMove_answer_to_3_3:
  assumes "wf_state st" and "history st = [(3, 3, p)]" and "difficulty st = ''hell''"
  shows "book_response st = None \<and>
         getAIMove r1 r2 st = (findBestOpeningMove (getAIPlayer st) st, st) \<and>
         findBestOpeningMove (getAIPlayer st) st = (7, 7)"
proof -
  have n: "book_response st = None"
    by (rule book_response_no_key [OF assms(2)]) simp
  have "getHellMove (getAIPlayer st) st = (findBestOpeningMove (getAIPlayer st) st, st)"
    unfolding getHellMove_def Let_def assms(2) n by simp
  then have "getAIMove r1 r2 st = (findBestOpeningMove (getAIPlayer st) st, st)"
    unfolding getAIMove_def Let_def assms(3) by simp
  then show ?thesis using n findBestOpeningMove_far_stone [OF assms(1,2)] by simp
qed

theorem getHellMove_answer_to_3_3_witness:
  "wf_state opening_state \<and> history opening_state = [(3, 3, 1)] \<and>
   difficulty opening_state = ''hell'' \<and>
   book_response opening_state = None \<and>
   getAIMove 0 0 opening_state =
     (findBestOpeningMove (getAIPlayer opening_state) opening_state, opening_state) \<and>
   findBestOpeningMove (getAIPlayer opening_state) opening_state = (7, 7)"
proof -
  have wf: "wf_state opening_state" by code_simp
  have h: "history opening_state = [(3, 3, 1)]" by (simp add: opening_state_def)
  have d: "difficulty opening_state = ''hell''" by (simp add: opening_state_def)
  from getHellMove_answer_to_3_3 [OF wf h d, of 0 0] wf h d show ?thesis by blast
qed

section \<open>The candidates of a search node\<close>

lemma hasImmediateWin_none:
  assumes "\<forall>c \<in> set all_cells. \<not> immediate_win_at (board st) p c"
  shows "\<exists>st'. hasImmediateWin p st = (False, st') \<and> frame st st'"
proof -
  have "frame st (snd (hasImmediateWin p st))" by (rule hasImmediateWin_frame)
  moreover have "fst (hasImmediateWin p st) = False"
    unfolding hasImmediateWin_def using hasImmediateWin_loop_spec [of st p all_cells] assms by simp
  ultimately show ?thesis by (cases "hasImmediateWin p st") simp
qed

lemma minimax_node:
  assumes no1: "\<forall>c \<in> set all_cells. \<not> immediate_win_at (board st) ai c"
    and no2: "\<forall>c \<in> set all_cells. \<not> immediate_win_at (board st) (playerColor st) c"
  shows "\<exists>st'. frame st st' \<and>
     minimax (Suc d) al be isMax ai st =
       (let candidates = ranked_candidates (board st) ai (playerColor st) HARD_SEARCH_LIMIT in
        if candidates = [] then (Fin (evaluateBoard ai st'), st')
        else if isMax
          then max_loop (\<lambda>a b. minimax d a b False ai) ai candidates MInf al be st'
          else min_loop (\<lambda>a b. minimax d a b True ai) (playerColor st) candidates PInf al be st')"
proof -
  define st0 where "st0 = st\<lparr>nodeCount := nodeCount st + 1\<rparr>"
  have f0: "frame st st0" unfolding st0_def by (rule frame_nodeCount)
  have p0: "playerColor st0 = playerColor st" by (rule frame_fields(3) [OF f0])
  have "\<forall>c \<in> set all_cells. \<not> immediate_win_at (board st0) ai c"
    using no1 frame_fields(1) [OF f0] by simp
  from hasImmediateWin_none [OF this]
  obtain st1 where h1: "hasImmediateWin ai st0 = (False, st1)" and f1: "frame st0 st1" by blast
  have f01: "frame st st1" by (rule frame_trans [OF f0 f1])
  have "\<forall>c \<in> set all_cells. \<not> immediate_win_at (board st1) (playerColor st) c"
    using no2 frame_fields(1) [OF f01] by simp
  from hasImmediateWin_none [OF this]
  obtain st2 where h2: "hasImmediateWin (playerColor st) st1 = (False, st2)" and f2: "frame st1 st2"
    by blast
  have f02: "frame st st2" by (rule frame_trans [OF f01 f2])
  have p2: "playerColor st2 = playerColor st" by (rule frame_fields(3) [OF f02])
  have c: "getCandidates ai HARD_SEARCH_LIMIT st2 =
      ranked_candidates (board st) ai (playerColor st) HARD_SEARCH_LIMIT"
    unfolding getCandidates_def getCandidatesImproved_def
    by (simp add: frame_fields(1,3) [OF f02])
  have "minimax (Suc d) al be isMax ai st =
       (let candidates = ranked_candidates (board st) ai (playerColor st) HARD_SEARCH_LIMIT in
        if candidates = [] then (Fin (evaluateBoard ai st2), st2)
        else if isMax
          then max_loop (\<lambda>a b. minimax d a b False ai) ai candidates MInf al be st2
          else min_loop (\<lambda>a b. minimax d a b True ai) (playerColor st) candidates PInf al be st2)"
    unfolding minimax.simps minimax_body_def Let_def st0_def [symmetric] p0 h1 h2 prod.case c p2
    by simp
  then show ?thesis using f02 by blast
qed

lemma no_winning_cell:
  assumes "wf_board b" "p \<noteq> 0" "\<not> (\<exists>c. winning_cell b p c)"
  shows "\<forall>c \<in> set all_cells. \<not> immediate_win_at b p c"
  using assms immediate_win_iff [OF assms(1,2)] by blast

text \<open>
  C5, as claimed: at a minimising node the list handed to the loop would be the one ranked
  for the human, who is to move.  At the node reached after black (the human) has played
  (7, 7) and the search has answered (6, 7), the list of the source, ranked with the
  computer as the attacker, contains (5, 7), and the list ranked for the side to move does
  not.
\<close>

theorem minimax_min_node_not_ranked_for_mover:
  "(5, 7) \<in> fst ` set (getCandidates 2 HARD_SEARCH_LIMIT min_node_state) \<and>
   (5, 7) \<notin> fst ` set (side_to_move_candidates False 2 min_node_state) \<and>
   (\<exists>st'. frame min_node_state st' \<and>
      minimax 1 MInf PInf False 2 min_node_state =
        min_loop (\<lambda>a b. minimax 0 a b True 2) 1
          (getCandidates 2 HARD_SEARCH_LIMIT min_node_state) PInf MInf PInf st')"
proof -
  have a: "(5, 7) \<in> fst ` set (getCandidates 2 HARD_SEARCH_LIMIT min_node_state)"
    by code_simp
  have b: "(5, 7) \<notin> fst ` set (side_to_move_candidates False 2 min_node_state)"
    by code_simp
  have pc: "playerColor min_node_state = 1"
    by (simp add: min_node_state_def)
  have g: "getCandidates 2 HARD_SEARCH_LIMIT min_node_state =
      ranked_candidates (board min_node_state) 2 (playerColor min_node_state) HARD_SEARCH_LIMIT"
    by (simp add: getCandidates_def getCandidatesImproved_def)
  have ne: "ranked_candidates (board min_node_state) 2 (playerColor min_node_state)
      HARD_SEARCH_LIMIT \<noteq> []"
    using a unfolding g by auto
  have n2: "\<forall>c \<in> set all_cells. \<not> immediate_win_at (board min_node_state) 2 c"
    by code_simp
  have n1: "\<forall>c \<in> set all_cells.
      \<not> immediate_win_at (board min_node_state) (playerColor min_node_state) c"
    by code_simp
  from minimax_node [OF n2 n1, of 0 MInf PInf False]
  obtain st' where "frame min_node_state st'"
    "minimax 1 MInf PInf False 2 min_node_state =
        min_loop (\<lambda>a b. minimax 0 a b True 2) 1
          (getCandidates 2 HARD_SEARCH_LIMIT min_node_state) PInf MInf PInf st'"
    using ne unfolding g Let_def pc by auto
  then show ?thesis using a b by blast
qed

text \<open>
  C5, amended.  At a node of \<^verbatim>\<open>minimax\<close> with depth above 0 at which neither side has an
  immediate win, the list handed to the loop is the same at a maximising and at a minimising
  node: the first \<^verbatim>\<open>SEARCH_LIMIT\<close> candidates of \<^verbatim>\<open>getCandidates(aiPlayer, ...)\<close>, ranked with
  the computer as the attacker and the human (\<^verbatim>\<open>gameState.playerColor\<close>) as the defender,
  whichever side is to move.  A maximising node writes the computer's stones on these cells,
  a minimising node the human's; with no candidate the node returns the static evaluation.
  The state \<open>st'\<close> in which the loop starts has the board of the node.
\<close>

theorem minimax_node_candidates:
  assumes "wf_board (board st)" and "ai \<noteq> 0" and "playerColor st \<noteq> 0"
    and "\<not> (\<exists>c. winning_cell (board st) ai c)"
    and "\<not> (\<exists>c. winning_cell (board st) (playerColor st) c)"
  shows "\<exists>st'. frame st st' \<and>
     minimax (Suc d) al be isMax ai st =
       (let candidates = ranked_candidates (board st) ai (playerColor st) HARD_SEARCH_LIMIT in
        if candidates = [] then (Fin (evaluateBoard ai st'), st')
        else if isMax
          then max_loop (\<lambda>a b. minimax d a b False ai) ai candidates MInf al be st'
          else min_loop (\<lambda>a b. minimax d a b True ai) (playerColor st) candidates PInf al be st')"
  by (rule minimax_node [OF no_winning_cell [OF assms(1,2,4)] no_winning_cell [OF assms(1,3,5)]])

theorem minimax_node_candidates_witness:
  "wf_board (board min_node_state) \<and>
   \<not> (\<exists>c. winning_cell (board min_node_state) 2 c) \<and>
   \<not> (\<exists>c. winning_cell (board min_node_state) (playerColor min_node_state) c) \<and>
   (\<exists>st'. frame min_node_state st' \<and>
     minimax (Suc 0) MInf PInf False 2 min_node_state =
       (let candidates = ranked_candidates (board min_node_state) 2
                           (playerColor min_node_state) HARD_SEARCH_LIMIT in
        if candidates = [] then (Fin (evaluateBoard 2 st'), st')
        else if False
          then max_loop (\<lambda>a b. minimax 0 a b False 2) 2 candidates MInf MInf PInf st'
          else min_loop (\<lambda>a b. minimax 0 a b True 2) (playerColor min_node_state)
                 candidates PInf MInf PInf st'))"
proof -
  have wf: "wf_board (board min_node_state)" by code_simp
  have pc: "playerColor min_node_state \<noteq> 0" by (simp add: min_node_state_def)
  have "\<forall>c \<in> set all_cells. \<not> winning_cell (board min_node_state) 2 c" by code_simp
  then have n2: "\<not> (\<exists>c. winning_cell (board min_node_state) 2 c)"
    using in_bounds_all_cells unfolding winning_cell_def by (metis prod.collapse)
  have "\<forall>c \<in> set all_cells.
      \<not> winning_cell (board min_node_state) (playerColor min_node_state) c" by code_simp
  then have n1: "\<not> (\<exists>c. winning_cell (board min_node_state) (playerColor min_node_state) c)"
    using in_bounds_all_cells unfolding winning_cell_def by (metis prod.collapse)
  have z: "(2::nat) \<noteq> 0" by simp
  from minimax_node_candidates [OF wf z pc n2 n1, of 0 MInf PInf False]
  show ?thesis using wf n2 n1 by blast
qed

end
